theory Spec2Isabelle
  imports Complex_Main
begin

text \<open>
  A shallow embedding of the simulation core of \<open>pages/Simulation.tsx\<close>: the planner
  \<open>findBestPath\<close>, the environment tick, the reroute decision, the vehicle movement tick,
  incident injection, reset and the decision log. Every state variable of the component is
  a field of one record, every effect and handler a function on it; wall-clock readings
  and the draws of the random generator are arguments.
\<close>

section \<open>Numbers\<close>

text \<open>
  The numbers held in the graph (coordinates, lengths, speeds), the penalty weight and the
  elapsed time are finite and are read as reals: rounding and overflow of doubles are not
  modelled. The source also produces values outside the finite range (\<open>Infinity\<close> as the
  initial score of a node, a division by an edge length of zero, the \<open>undefined\<close> read from a
  missing key, which behaves as \<open>NaN\<close> in every arithmetic use made of it); those positions
  carry a \<open>jsnum\<close>. Signed zeros are not modelled.
\<close>

datatype jsnum = Fin real | PInf | NInf | NaN

fun jneg :: "jsnum \<Rightarrow> jsnum" where
  "jneg (Fin a) = Fin (- a)"
| "jneg PInf = NInf"
| "jneg NInf = PInf"
| "jneg NaN = NaN"

fun jadd :: "jsnum \<Rightarrow> jsnum \<Rightarrow> jsnum" where
  "jadd (Fin a) (Fin b) = Fin (a + b)"
| "jadd NaN _ = NaN"
| "jadd _ NaN = NaN"
| "jadd PInf NInf = NaN"
| "jadd NInf PInf = NaN"
| "jadd PInf _ = PInf"
| "jadd _ PInf = PInf"
| "jadd NInf _ = NInf"
| "jadd _ NInf = NInf"

definition jsub :: "jsnum \<Rightarrow> jsnum \<Rightarrow> jsnum" where
  "jsub a b = jadd a (jneg b)"

definition jinf_sign :: "bool \<Rightarrow> jsnum" where
  "jinf_sign positive = (if positive then PInf else NInf)"

fun jmul :: "jsnum \<Rightarrow> jsnum \<Rightarrow> jsnum" where
  "jmul (Fin a) (Fin b) = Fin (a * b)"
| "jmul NaN _ = NaN"
| "jmul _ NaN = NaN"
| "jmul PInf (Fin b) = (if b = 0 then NaN else jinf_sign (0 < b))"
| "jmul NInf (Fin b) = (if b = 0 then NaN else jinf_sign (b < 0))"
| "jmul (Fin a) PInf = (if a = 0 then NaN else jinf_sign (0 < a))"
| "jmul (Fin a) NInf = (if a = 0 then NaN else jinf_sign (a < 0))"
| "jmul PInf PInf = PInf"
| "jmul NInf NInf = PInf"
| "jmul PInf NInf = NInf"
| "jmul NInf PInf = NInf"

fun jdiv :: "jsnum \<Rightarrow> jsnum \<Rightarrow> jsnum" where
  "jdiv (Fin a) (Fin b) =
     (if b \<noteq> 0 then Fin (a / b) else if a = 0 then NaN else jinf_sign (0 < a))"
| "jdiv NaN _ = NaN"
| "jdiv _ NaN = NaN"
| "jdiv (Fin a) PInf = Fin 0"
| "jdiv (Fin a) NInf = Fin 0"
| "jdiv PInf (Fin b) = jinf_sign (0 \<le> b)"
| "jdiv NInf (Fin b) = jinf_sign (b < 0)"
| "jdiv PInf PInf = NaN"
| "jdiv PInf NInf = NaN"
| "jdiv NInf PInf = NaN"
| "jdiv NInf NInf = NaN"

text \<open>\<open>a < b\<close> of the source; every comparison with \<open>NaN\<close> is false.\<close>

fun jlt :: "jsnum \<Rightarrow> jsnum \<Rightarrow> bool" where
  "jlt (Fin a) (Fin b) = (a < b)"
| "jlt NaN _ = False"
| "jlt _ NaN = False"
| "jlt NInf NInf = False"
| "jlt NInf _ = True"
| "jlt _ NInf = False"
| "jlt PInf _ = False"
| "jlt _ PInf = True"

definition jgt :: "jsnum \<Rightarrow> jsnum \<Rightarrow> bool" where
  "jgt a b = jlt b a"

text \<open>\<open>a >= b\<close> of the source.\<close>

fun jge :: "jsnum \<Rightarrow> jsnum \<Rightarrow> bool" where
  "jge (Fin a) (Fin b) = (b \<le> a)"
| "jge NaN _ = False"
| "jge _ NaN = False"
| "jge PInf _ = True"
| "jge _ NInf = True"
| "jge NInf _ = False"
| "jge _ PInf = False"

text \<open>\<open>Math.max(a, b)\<close>: \<open>NaN\<close> if either argument is.\<close>

fun jmax :: "jsnum \<Rightarrow> jsnum \<Rightarrow> jsnum" where
  "jmax (Fin a) (Fin b) = Fin (max a b)"
| "jmax NaN _ = NaN"
| "jmax _ NaN = NaN"
| "jmax PInf _ = PInf"
| "jmax _ PInf = PInf"
| "jmax NInf b = b"
| "jmax a NInf = a"

section \<open>Data model (types.ts)\<close>

datatype light = Green | Red

text \<open>\<open>lightStatus\<close> is optional in the source: \<open>None\<close> is the absent field.\<close>

record node =
  node_id :: string
  pos_x :: real
  pos_y :: real
  label :: string
  lightStatus :: "light option"

text \<open>\<open>congested\<close> is optional in the source; it is only tested for truth, so the absent
  field is \<open>False\<close>.\<close>

record edge =
  edge_id :: string
  source :: string
  target :: string
  length_km :: real
  limit :: real
  baseSpeed :: real
  currentSpeed :: real
  congested :: bool

datatype severity = Info | Warning | Error | Success

text \<open>The message templates of the source, with the values they interpolate; the decimal
  formatting (\<open>toFixed\<close>) is not modelled.\<close>

datatype message =
    SimulationStarted
  | DestinationReached real
  | PathConnectivityLost
  | TriggeredReroute jsnum jsnum
  | StartSetTo string
  | EndSetTo string
  | VanetAlert string string real
  | SimulationReset

record simulationLog =
  log_id :: int
  timestamp :: string
  log_message :: message
  log_type :: severity

datatype constraint = Satisfied | Violated

record simulationMetrics =
  totalTime :: real
  pathChanges :: nat
  distanceTraveled :: jsnum
  currentConstraint :: constraint

text \<open>A reading of the wall clock: \<open>Date.now()\<close> and \<open>new Date().toLocaleTimeString()\<close>.\<close>

record clock =
  clock_now :: int
  clock_time :: string

section \<open>Plain objects used as dictionaries\<close>

text \<open>
  \<open>cameFrom\<close>, \<open>gScore\<close> and \<open>fScore\<close> are plain objects (\<open>{}\<close>) indexed by node ids, so the
  members they inherit from \<open>Object.prototype\<close> show through wherever no own property has
  been stored: \<open>k in cameFrom\<close> is true and \<open>cameFrom[k]\<close> is the inherited member (a
  function, or the prototype object for \<open>__proto__\<close>), which is not a string. An assignment
  to the key \<open>__proto__\<close> of a string or a number stores nothing.
\<close>

definition proto_keys :: "string list" where
  "proto_keys =
     [''constructor'', ''__defineGetter__'', ''__defineSetter__'', ''hasOwnProperty'',
      ''__lookupGetter__'', ''__lookupSetter__'', ''isPrototypeOf'', ''propertyIsEnumerable'',
      ''toString'', ''valueOf'', ''__proto__'', ''toLocaleString'']"

text \<open>An element of a path array: a node id, or the member of \<open>Object.prototype\<close> of the
  given name.\<close>

datatype elem = NodeId string | Member string

text \<open>The string an inherited member turns into where it is used as a key or joined into
  a string; for the functions, the text V8 (Node.js, Chrome) prints.\<close>

definition member_text :: "string \<Rightarrow> string" where
  "member_text k =
     (if k = ''__proto__'' then ''[object Object]''
      else ''function '' @ (if k = ''constructor'' then ''Object'' else k) @ ''() { [native code] }'')"

fun elem_text :: "elem \<Rightarrow> string" where
  "elem_text (NodeId i) = i"
| "elem_text (Member k) = member_text k"

text \<open>\<open>if (x)\<close> for an element: false for the empty id only.\<close>

fun truthy :: "elem \<Rightarrow> bool" where
  "truthy (NodeId i) = (i \<noteq> [])"
| "truthy (Member k) = True"

text \<open>\<open>obj[k] = v\<close> for a string or number \<open>v\<close>.\<close>

definition js_set :: "(string \<Rightarrow> 'a) \<Rightarrow> string \<Rightarrow> 'a \<Rightarrow> (string \<Rightarrow> 'a)" where
  "js_set obj k v = (if k = ''__proto__'' then obj else obj(k := v))"

text \<open>\<open>cameFrom[k]\<close>, where \<open>cf\<close> holds the own properties; \<open>None\<close> is \<open>undefined\<close>, and
  \<open>k in cameFrom\<close> is true exactly when the result is not \<open>None\<close>.\<close>

definition js_get :: "(string \<rightharpoonup> string) \<Rightarrow> string \<Rightarrow> elem option" where
  "js_get cf k =
     (case cf k of
        Some p \<Rightarrow> Some (NodeId p)
      | None \<Rightarrow> if k \<in> set proto_keys then Some (Member k) else None)"

section \<open>Simulation state (pages/Simulation.tsx)\<close>

record simulation =
  edges :: "edge list"
  nodes :: "node list"
  startNode :: string
  endNode :: string
  isPlaying :: bool
  carNodeIndex :: nat
  progressBetweenNodes :: jsnum
  isWaitingForLight :: bool
  currentPath :: "elem list"
  estimatedTime :: jsnum
  penaltyWeight :: real
  logs :: "simulationLog list"
  metrics :: simulationMetrics

subsection \<open>addLog\<close>

text \<open>\<open>[entry, ...prev].slice(100)\<close>: \<open>slice\<close> with one argument keeps the elements from
  index 100 on.\<close>

definition addLog :: "clock \<Rightarrow> message \<Rightarrow> severity \<Rightarrow> simulationLog list \<Rightarrow> simulationLog list" where
  "addLog clk msg ty prev =
     drop 100 (\<lparr>log_id = clock_now clk, timestamp = clock_time clk,
                 log_message = msg, log_type = ty\<rparr> # prev)"

subsection \<open>Environment tick\<close>

text \<open>The draws of \<open>Math.random()\<close> made by one tick are the values \<open>rnd 0\<close>, \<open>rnd 1\<close>, ...
  in the order the source makes them; the counter is threaded through the two passes.\<close>

fun tick_nodes :: "(nat \<Rightarrow> real) \<Rightarrow> nat \<Rightarrow> node list \<Rightarrow> node list \<times> nat" where
  "tick_nodes rnd k [] = ([], k)"
| "tick_nodes rnd k (n # ns) =
     (let n' = (if rnd k > 0.7
                then n\<lparr>lightStatus := Some (if lightStatus n = Some Green then Red else Green)\<rparr>
                else n);
          (ns', k') = tick_nodes rnd (Suc k) ns
      in (n' # ns', k'))"

definition perturb :: "real \<Rightarrow> real \<Rightarrow> edge \<Rightarrow> edge" where
  "perturb r1 r2 e =
     (let flux = (r1 - 0.5) * 15;
          newSpeed = baseSpeed e + flux;
          newSpeed = max 5 (min (limit e) newSpeed);
          newSpeed = (if r2 > 0.95 then max 5 (baseSpeed e * 0.2) else newSpeed)
      in e\<lparr>currentSpeed := of_int \<lfloor>newSpeed\<rfloor>\<rparr>)"

fun tick_edges :: "(nat \<Rightarrow> real) \<Rightarrow> nat \<Rightarrow> edge list \<Rightarrow> edge list \<times> nat" where
  "tick_edges rnd k [] = ([], k)"
| "tick_edges rnd k (e # es) =
     (if congested e
      then (let (es', k') = tick_edges rnd k es in (e # es', k'))
      else (let (es', k') = tick_edges rnd (Suc (Suc k)) es
            in (perturb (rnd k) (rnd (Suc k)) e # es', k')))"

text \<open>The interval callback exists only while the simulation is playing.\<close>

definition environment_tick :: "(nat \<Rightarrow> real) \<Rightarrow> simulation \<Rightarrow> simulation" where
  "environment_tick rnd st =
     (if \<not> isPlaying st then st
      else (let (ns, k) = tick_nodes rnd 0 (nodes st);
                (es, k') = tick_edges rnd k (edges st)
            in st\<lparr>nodes := ns, edges := es\<rparr>))"

subsection \<open>Incident injection and reset\<close>

definition triggerCongestion :: "clock \<Rightarrow> string \<Rightarrow> real \<Rightarrow> string \<Rightarrow> simulation \<Rightarrow> simulation" where
  "triggerCongestion clk edgeId speed reason st =
     st\<lparr>edges := map (\<lambda>e. if edge_id e = edgeId
                             then e\<lparr>currentSpeed := speed, congested := True\<rparr> else e) (edges st),
        logs := addLog clk (VanetAlert reason edgeId speed) Error (logs st)\<rparr>"

text \<open>\<open>INITIAL_EDGES\<close> is the grid generated by \<open>constants\<close>; it is a parameter here, so
  that the reset is modelled for every initial graph.\<close>

definition handleReset :: "edge list \<Rightarrow> clock \<Rightarrow> simulation \<Rightarrow> simulation" where
  "handleReset INITIAL_EDGES clk st =
     st\<lparr>isPlaying := False, carNodeIndex := 0, progressBetweenNodes := Fin 0,
        isWaitingForLight := False,
        metrics := \<lparr>totalTime = 0, pathChanges = 0, distanceTraveled = Fin 0,
                    currentConstraint = Satisfied\<rparr>,
        edges := INITIAL_EDGES,
        logs := addLog clk SimulationReset Info (logs st)\<rparr>"

section \<open>Algorithm 1: findBestPath\<close>

record route =
  path :: "elem list"
  time :: jsnum

text \<open>What a call returns: \<open>null\<close> or a route. The calls with the start id \<open>__proto__\<close>
  are not modelled and have the third value: the assignment \<open>gScore[startId] = 0\<close> stores
  nothing then, the score of the start stays the prototype object, and the sums made
  with it are strings.\<close>

datatype search = NoPath | Found route | NotModelled

text \<open>The search state: \<open>openSet\<close> is a JavaScript \<open>Set\<close>, iterated in insertion order, so
  it is a list without repetitions; \<open>cameFrom\<close> holds the own properties of the object of
  that name. A read of \<open>gScore\<close> or \<open>fScore\<close> at a key without own property gives
  \<open>undefined\<close> or an inherited member; against the numbers it is compared with, either
  behaves as \<open>NaN\<close>, which is the default value of the two tables.\<close>

record astar =
  openSet :: "string list"
  cameFrom :: "string \<rightharpoonup> string"
  gScore :: "string \<Rightarrow> jsnum"
  fScore :: "string \<Rightarrow> jsnum"

definition find_node :: "node list \<Rightarrow> string \<Rightarrow> node option" where
  "find_node ns i = find (\<lambda>n. node_id n = i) ns"

definition heuristic :: "node list \<Rightarrow> string \<Rightarrow> string \<Rightarrow> real" where
  "heuristic ns endId i =
     (case (find_node ns i, find_node ns endId) of
        (Some n, Some tgt) \<Rightarrow>
          (let dx = \<bar>pos_x n - pos_x tgt\<bar>; dy = \<bar>pos_y n - pos_y tgt\<bar>; distKm = (dx + dy) / 100
           in distKm)
      | _ \<Rightarrow> 0)"

datatype direction = NoDirection | Horizontal | Vertical

definition getDirection :: "node list \<Rightarrow> string \<Rightarrow> string \<Rightarrow> direction" where
  "getDirection ns fromId toId =
     (case (find_node ns fromId, find_node ns toId) of
        (Some n1, Some n2) \<Rightarrow>
          (if \<bar>pos_x n1 - pos_x n2\<bar> > \<bar>pos_y n1 - pos_y n2\<bar> then Horizontal else Vertical)
      | _ \<Rightarrow> NoDirection)"

definition add_open :: "string \<Rightarrow> string list \<Rightarrow> string list" where
  "add_open i os = (if i \<in> set os then os else os @ [i])"

definition neighborId :: "string \<Rightarrow> edge \<Rightarrow> string" where
  "neighborId current e = (if source e = current then target e else source e)"

text \<open>\<open>getDirection(prevId, current)\<close> for what \<open>cameFrom[current]\<close> gave: no node has an
  inherited member as its id.\<close>

fun direction_from :: "node list \<Rightarrow> elem \<Rightarrow> string \<Rightarrow> direction" where
  "direction_from ns (NodeId prevId) current = getDirection ns prevId current"
| "direction_from ns (Member k) current = NoDirection"

text \<open>The cost of going from \<open>current\<close> over edge \<open>e\<close>, given \<open>prev = cameFrom[current]\<close>
  (\<open>if (prevId)\<close> is false for \<open>undefined\<close> and for the empty id).\<close>

definition edge_cost :: "node list \<Rightarrow> elem option \<Rightarrow> string \<Rightarrow> edge \<Rightarrow> real" where
  "edge_cost ns prev current e =
     (let nb = neighborId current e;
          speed = max 0.1 (currentSpeed e);
          baseTime = (length_km e / speed) * 60;
          lightPenalty = (case find_node ns nb of
                            Some targetNode \<Rightarrow> if lightStatus targetNode = Some Red then 0.5 else 0
                          | None \<Rightarrow> 0);
          turnPenalty = (case prev of
                           Some prevId \<Rightarrow>
                             if truthy prevId
                                \<and> direction_from ns prevId current \<noteq> getDirection ns current nb
                             then 0.15 else 0
                         | None \<Rightarrow> 0);
          roadLevelFactor = (if limit e \<ge> 60 then 1.0 else 1.2)
      in (baseTime + lightPenalty + turnPenalty) * roadLevelFactor)"

text \<open>One pass of the body of \<open>for (const edge of neighbors)\<close>.\<close>

definition relax :: "node list \<Rightarrow> string \<Rightarrow> string \<Rightarrow> astar \<Rightarrow> edge \<Rightarrow> astar" where
  "relax ns endId current st e =
     (let nb = neighborId current e;
          tentativeGScore =
            jadd (gScore st current) (Fin (edge_cost ns (js_get (cameFrom st) current) current e))
      in if jlt tentativeGScore (gScore st nb)
         then st\<lparr>cameFrom := js_set (cameFrom st) nb (Some current),
                 gScore := js_set (gScore st) nb tentativeGScore,
                 fScore := js_set (fScore st) nb (jadd tentativeGScore (Fin (heuristic ns endId nb))),
                 openSet := add_open nb (openSet st)\<rparr>
         else st)"

definition neighbors :: "edge list \<Rightarrow> string \<Rightarrow> edge list" where
  "neighbors currentEdges current = filter (\<lambda>e. source e = current \<or> target e = current) currentEdges"

text \<open>\<open>Array.from(openSet).reduce((a, b) => (fScore[a] < fScore[b] ? a : b))\<close> on a
  non-empty set with first element \<open>a\<close>.\<close>

definition lowest :: "(string \<Rightarrow> jsnum) \<Rightarrow> string \<Rightarrow> string list \<Rightarrow> string" where
  "lowest f a bs = foldl (\<lambda>a b. if jlt (f a) (f b) then a else b) a bs"

text \<open>\<open>while (current in cameFrom)\<close>, with \<open>current\<close> turned into a string where it is used
  as the key: not returning is \<open>None\<close>.\<close>

partial_function (option) reconstruct :: "(string \<rightharpoonup> string) \<Rightarrow> elem \<Rightarrow> elem list \<Rightarrow> elem list option" where
  "reconstruct cf current totalPath =
     (case js_get cf (elem_text current) of
        None \<Rightarrow> Some totalPath
      | Some prev \<Rightarrow> reconstruct cf prev (prev # totalPath))"

text \<open>\<open>while (openSet.size > 0)\<close>: \<open>None\<close> is a search that does not return.\<close>

partial_function (option) astar_loop :: "node list \<Rightarrow> edge list \<Rightarrow> string \<Rightarrow> astar \<Rightarrow> search option" where
  "astar_loop ns currentEdges endId st =
     (case openSet st of
        [] \<Rightarrow> Some NoPath
      | a # bs \<Rightarrow>
          (let current = lowest (fScore st) a bs
           in if current = endId
              then map_option (\<lambda>totalPath. Found \<lparr>path = totalPath, time = gScore st endId\<rparr>)
                     (reconstruct (cameFrom st) (NodeId current) [NodeId current])
              else astar_loop ns currentEdges endId
                     (foldl (relax ns endId current)
                        (st\<lparr>openSet := removeAll current (openSet st)\<rparr>)
                        (neighbors currentEdges current))))"

definition astar_init :: "string \<Rightarrow> string \<Rightarrow> node list \<Rightarrow> astar" where
  "astar_init startId endId ns =
     \<lparr>openSet = [startId],
      cameFrom = Map.empty,
      gScore = js_set (foldl (\<lambda>g n. js_set g (node_id n) PInf) (\<lambda>_. NaN) ns) startId (Fin 0),
      fScore = js_set (foldl (\<lambda>f n. js_set f (node_id n) PInf) (\<lambda>_. NaN) ns) startId
                 (Fin (heuristic ns endId startId))\<rparr>"

definition findBestPath :: "string \<Rightarrow> string \<Rightarrow> edge list \<Rightarrow> node list \<Rightarrow> search option" where
  "findBestPath startId endId currentEdges ns =
     (if startId = ''__proto__'' then Some NotModelled
      else astar_loop ns currentEdges endId (astar_init startId endId ns))"

text \<open>The call \<open>findBestPath(currentNode, ...)\<close> of the planning effect, where \<open>currentNode\<close>
  is an element of the committed path. An inherited member is identical to no id: the
  search takes it from the open set, finds it different from the goal and without edges,
  and returns \<open>null\<close>.\<close>

fun findBestPath_from :: "elem \<Rightarrow> string \<Rightarrow> edge list \<Rightarrow> node list \<Rightarrow> search option" where
  "findBestPath_from (NodeId currentNode) endId currentEdges ns =
     findBestPath currentNode endId currentEdges ns"
| "findBestPath_from (Member k) endId currentEdges ns = Some NoPath"

section \<open>Algorithm 3: the reroute decision\<close>

text \<open>\<open>Array.prototype.join(',')\<close>.\<close>

fun join_comma :: "string list \<Rightarrow> string" where
  "join_comma [] = []"
| "join_comma [a] = a"
| "join_comma (a # b # cs) = a @ '','' @ join_comma (b # cs)"

definition oldRemainingTime :: "jsnum \<Rightarrow> real \<Rightarrow> jsnum" where
  "oldRemainingTime est elapsed = jmax (Fin 0.1) (jsub est (Fin elapsed))"

definition rawTimeSaved :: "jsnum \<Rightarrow> real \<Rightarrow> jsnum \<Rightarrow> jsnum" where
  "rawTimeSaved est elapsed newRemainingTime = jsub (oldRemainingTime est elapsed) newRemainingTime"

definition netBenefit :: "jsnum \<Rightarrow> real \<Rightarrow> jsnum \<Rightarrow> real \<Rightarrow> jsnum" where
  "netBenefit est elapsed newRemainingTime pw = jsub (rawTimeSaved est elapsed newRemainingTime) (Fin pw)"

definition relativeImprovement :: "jsnum \<Rightarrow> real \<Rightarrow> jsnum \<Rightarrow> jsnum" where
  "relativeImprovement est elapsed newRemainingTime =
     jdiv (rawTimeSaved est elapsed newRemainingTime) (oldRemainingTime est elapsed)"

definition shouldReroute :: "jsnum \<Rightarrow> real \<Rightarrow> jsnum \<Rightarrow> real \<Rightarrow> bool" where
  "shouldReroute est elapsed newRemainingTime pw \<longleftrightarrow>
     jgt (netBenefit est elapsed newRemainingTime pw) (Fin 0)
     \<and> jgt (relativeImprovement est elapsed newRemainingTime) (Fin 0.2)"

text \<open>The body of \<open>if (newRouteFromHere)\<close>.\<close>

definition reroute :: "clock \<Rightarrow> route \<Rightarrow> simulation \<Rightarrow> simulation" where
  "reroute clk newRouteFromHere st =
     (let oldPathStr = join_comma (map elem_text (drop (carNodeIndex st) (currentPath st)));
          newPathStr = join_comma (map elem_text (path newRouteFromHere));
          elapsed = totalTime (metrics st);
          newRemainingTime = time newRouteFromHere
      in if oldPathStr \<noteq> newPathStr
            \<and> shouldReroute (estimatedTime st) elapsed newRemainingTime (penaltyWeight st)
         then st\<lparr>logs := addLog clk
                           (TriggeredReroute (rawTimeSaved (estimatedTime st) elapsed newRemainingTime)
                              (netBenefit (estimatedTime st) elapsed newRemainingTime (penaltyWeight st)))
                           Success (logs st),
                 currentPath := take (carNodeIndex st) (currentPath st) @ path newRouteFromHere,
                 metrics := (metrics st)\<lparr>pathChanges := pathChanges (metrics st) + 1\<rparr>,
                 estimatedTime := jadd (Fin elapsed) newRemainingTime\<rparr>
         else st)"

text \<open>The planning effect. \<open>currentPath[carNodeIndex]\<close> is \<open>undefined\<close> out of range, and
  \<open>if (currentNode && ...)\<close> is false for \<open>undefined\<close> and for the empty id. \<open>None\<close> is the
  absence of a next state in the model: the search does not return, or the call is not
  modelled.\<close>

definition planning_effect :: "clock \<Rightarrow> simulation \<Rightarrow> simulation option" where
  "planning_effect clk st =
     (if \<not> isPlaying st
      then (case findBestPath (startNode st) (endNode st) (edges st) (nodes st) of
              None \<Rightarrow> None
            | Some NotModelled \<Rightarrow> None
            | Some NoPath \<Rightarrow> Some st
            | Some (Found result) \<Rightarrow>
                Some (st\<lparr>currentPath := path result, estimatedTime := time result,
                         carNodeIndex := 0, progressBetweenNodes := Fin 0\<rparr>))
      else if carNodeIndex st < length (currentPath st)
              \<and> truthy (currentPath st ! carNodeIndex st)
              \<and> currentPath st ! carNodeIndex st \<noteq> NodeId (endNode st)
      then (case findBestPath_from (currentPath st ! carNodeIndex st) (endNode st) (edges st) (nodes st) of
              None \<Rightarrow> None
            | Some NotModelled \<Rightarrow> None
            | Some NoPath \<Rightarrow> Some st
            | Some (Found newRouteFromHere) \<Rightarrow> Some (reroute clk newRouteFromHere st))
      else Some st)"

section \<open>The vehicle movement tick\<close>

text \<open>\<open>===\<close> between the endpoint of an edge, a string, and an element of the path.\<close>

definition find_edge :: "edge list \<Rightarrow> elem \<Rightarrow> elem \<Rightarrow> edge option" where
  "find_edge es u v =
     find (\<lambda>e. (NodeId (source e) = u \<and> NodeId (target e) = v)
             \<or> (NodeId (source e) = v \<and> NodeId (target e) = u)) es"

definition red_node :: "node list \<Rightarrow> string \<Rightarrow> bool" where
  "red_node ns i = (case find_node ns i of Some targetNodeObj \<Rightarrow> lightStatus targetNodeObj = Some Red
                    | None \<Rightarrow> False)"

fun red_ahead :: "node list \<Rightarrow> elem \<Rightarrow> bool" where
  "red_ahead ns (NodeId v) = red_node ns v"
| "red_ahead ns (Member k) = False"

definition vehicle_tick :: "clock \<Rightarrow> simulation \<Rightarrow> simulation" where
  "vehicle_tick clk st =
     (if \<not> isPlaying st then st
      else if int (carNodeIndex st) \<ge> int (length (currentPath st)) - 1
      then st\<lparr>isPlaying := False,
              logs := addLog clk (DestinationReached (totalTime (metrics st))) Success (logs st)\<rparr>
      else
        (let u = currentPath st ! carNodeIndex st;
             v = currentPath st ! (carNodeIndex st + 1)
         in case find_edge (edges st) u v of
              None \<Rightarrow> st\<lparr>isPlaying := False,
                         logs := addLog clk PathConnectivityLost Error (logs st)\<rparr>
            | Some e \<Rightarrow>
                (let speed = currentSpeed e;
                     len = length_km e;
                     step = jmul (jdiv (Fin speed) (Fin len)) (Fin 0.005)
                 in if red_ahead (nodes st) v \<and> jgt (progressBetweenNodes st) (Fin 0.85)
                    then st\<lparr>isWaitingForLight := True,
                            metrics := (metrics st)\<lparr>totalTime := totalTime (metrics st) + 0.05\<rparr>\<rparr>
                    else
                      (let newProgress = jadd (progressBetweenNodes st) step;
                           st1 = st\<lparr>isWaitingForLight := False\<rparr>;
                           st2 = (if jge newProgress (Fin 1)
                                  then st1\<lparr>carNodeIndex := carNodeIndex st + 1,
                                           progressBetweenNodes := Fin 0\<rparr>
                                  else st1\<lparr>progressBetweenNodes := newProgress\<rparr>)
                       in st2\<lparr>metrics := (metrics st)
                                 \<lparr>totalTime := totalTime (metrics st) + 0.02,
                                  distanceTraveled :=
                                    jadd (distanceTraveled (metrics st)) (jmul step (Fin len))\<rparr>\<rparr>))))"

section \<open>Runs of the simulation\<close>

text \<open>The Start/Pause button.\<close>

definition toggle_play :: "clock \<Rightarrow> simulation \<Rightarrow> simulation" where
  "toggle_play clk st =
     st\<lparr>logs := (if \<not> isPlaying st \<and> carNodeIndex st = 0
                 then addLog clk SimulationStarted Info (logs st) else logs st),
        isPlaying := \<not> isPlaying st\<rparr>"

datatype event =
    EnvironmentTick "nat \<Rightarrow> real"
  | PlanningEffect clock
  | VehicleTick clock
  | TriggerCongestion clock string real string
  | HandleReset clock
  | TogglePlay clock
  | SetPenaltyWeight real

fun apply_event :: "edge list \<Rightarrow> event \<Rightarrow> simulation \<Rightarrow> simulation option" where
  "apply_event init (EnvironmentTick rnd) st = Some (environment_tick rnd st)"
| "apply_event init (PlanningEffect clk) st = planning_effect clk st"
| "apply_event init (VehicleTick clk) st = Some (vehicle_tick clk st)"
| "apply_event init (TriggerCongestion clk edgeId speed reason) st =
     Some (triggerCongestion clk edgeId speed reason st)"
| "apply_event init (HandleReset clk) st = Some (handleReset init clk st)"
| "apply_event init (TogglePlay clk) st = Some (toggle_play clk st)"
| "apply_event init (SetPenaltyWeight w) st = Some (st\<lparr>penaltyWeight := w\<rparr>)"

fun run :: "edge list \<Rightarrow> event list \<Rightarrow> simulation \<Rightarrow> simulation option" where
  "run init [] st = Some st"
| "run init (ev # evs) st =
     (case apply_event init ev st of None \<Rightarrow> None | Some st' \<Rightarrow> run init evs st')"

text \<open>The state the component starts in, for the graph supplied by \<open>constants\<close>.\<close>

definition initial_simulation :: "edge list \<Rightarrow> node list \<Rightarrow> simulation" where
  "initial_simulation INITIAL_EDGES NODES =
     \<lparr>edges = INITIAL_EDGES, nodes = NODES, startNode = ''1'', endNode = ''81'',
      isPlaying = False, carNodeIndex = 0, progressBetweenNodes = Fin 0,
      isWaitingForLight = False, currentPath = [], estimatedTime = Fin 0,
      penaltyWeight = 1.5, logs = [],
      metrics = \<lparr>totalTime = 0, pathChanges = 0, distanceTraveled = Fin 0,
                  currentConstraint = Satisfied\<rparr>\<rparr>"

section \<open>Properties of states and example data\<close>

text \<open>The speed invariant of the data model, with \<open>minSpeed = 5\<close>.\<close>

definition speed_invariant :: "edge \<Rightarrow> bool" where
  "speed_invariant e \<longleftrightarrow> (0::real) < 5 \<and> 5 \<le> currentSpeed e \<and> currentSpeed e \<le> limit e"

definition well_formed_edge :: "edge \<Rightarrow> bool" where
  "well_formed_edge e \<longleftrightarrow> speed_invariant e \<and> baseSpeed e \<le> limit e"

text \<open>What the environment tick maintains: the static bounds, and the speed invariant on
  the edges that are not marked incident.\<close>

definition ambient_ok :: "edge \<Rightarrow> bool" where
  "ambient_ok e \<longleftrightarrow>
     5 \<le> limit e \<and> baseSpeed e \<le> limit e \<and> (\<not> congested e \<longrightarrow> speed_invariant e)"

text \<open>A road of two 1 km segments at 120 km/h from S over M to G, and a 2 km bypass from S
  to G at 100 km/h; the three nodes lie on one horizontal line, 100 pixels to the km.\<close>

definition bypass_nodes :: "node list" where
  "bypass_nodes =
     [\<lparr>node_id = ''S'', pos_x = 0, pos_y = 0, label = ''S'', lightStatus = Some Green\<rparr>,
      \<lparr>node_id = ''M'', pos_x = 100, pos_y = 0, label = ''M'', lightStatus = Some Green\<rparr>,
      \<lparr>node_id = ''G'', pos_x = 200, pos_y = 0, label = ''G'', lightStatus = Some Green\<rparr>]"

definition bypass_edges :: "edge list" where
  "bypass_edges =
     [\<lparr>edge_id = ''S-M'', source = ''S'', target = ''M'', length_km = 1, limit = 120,
       baseSpeed = 120, currentSpeed = 120, congested = False\<rparr>,
      \<lparr>edge_id = ''M-G'', source = ''M'', target = ''G'', length_km = 1, limit = 120,
       baseSpeed = 120, currentSpeed = 120, congested = False\<rparr>,
      \<lparr>edge_id = ''S-G'', source = ''S'', target = ''G'', length_km = 2, limit = 120,
       baseSpeed = 100, currentSpeed = 100, congested = False\<rparr>]"

definition noon :: clock where
  "noon = \<lparr>clock_now = 0, clock_time = ''12:00:00''\<rparr>"

text \<open>The vehicle at S, committed to the bypass.\<close>

definition driving :: simulation where
  "driving = (initial_simulation bypass_edges bypass_nodes)
     \<lparr>startNode := ''S'', endNode := ''G'', isPlaying := True,
      currentPath := [NodeId ''S'', NodeId ''G''], estimatedTime := Fin (6 / 5)\<rparr>"





text \<open>The simulation started although no route was found: the committed path is empty.\<close>

definition no_route :: simulation where
  "no_route = (initial_simulation bypass_edges bypass_nodes)\<lparr>isPlaying := True\<rparr>"

text \<open>The same roads in town: 60 km/h on the two segments, 50 km/h on the bypass.\<close>

definition city_edges :: "edge list" where
  "city_edges =
     [\<lparr>edge_id = ''S-M'', source = ''S'', target = ''M'', length_km = 1, limit = 60,
       baseSpeed = 60, currentSpeed = 60, congested = False\<rparr>,
      \<lparr>edge_id = ''M-G'', source = ''M'', target = ''G'', length_km = 1, limit = 60,
       baseSpeed = 60, currentSpeed = 60, congested = False\<rparr>,
      \<lparr>edge_id = ''S-G'', source = ''S'', target = ''G'', length_km = 2, limit = 60,
       baseSpeed = 50, currentSpeed = 50, congested = False\<rparr>]"




section \<open>Properties of routes\<close>

text \<open>Edge \<open>e\<close> joins the nodes \<open>a\<close> and \<open>b\<close>; edges are traversable in either direction.\<close>

definition connects :: "edge \<Rightarrow> string \<Rightarrow> string \<Rightarrow> bool" where
  "connects e a b \<longleftrightarrow> (source e = a \<and> target e = b) \<or> (source e = b \<and> target e = a)"

text \<open>\<open>as\<close> is the chain of predecessors of \<open>c\<close>, nearest first, ending at a node that has
  none.\<close>

fun walk_up :: "(string \<rightharpoonup> string) \<Rightarrow> string \<Rightarrow> string list \<Rightarrow> bool" where
  "walk_up cf c [] = (cf c = None)"
| "walk_up cf c (a # as) = (cf c = Some a \<and> walk_up cf a as)"

text \<open>The predecessor links lead along edges, from nodes that were open before. The start
  is not the name of an inherited member, and nothing has been stored under \<open>__proto__\<close>.\<close>

definition tree_inv :: "string \<Rightarrow> edge list \<Rightarrow> astar \<Rightarrow> bool" where
  "tree_inv startId es st \<longleftrightarrow>
     (\<forall>n p. cameFrom st n = Some p \<longrightarrow>
        (p = startId \<or> p \<in> dom (cameFrom st)) \<and> (\<exists>e\<in>set es. connects e p n))
     \<and> (\<forall>a\<in>set (openSet st). a = startId \<or> a \<in> dom (cameFrom st))
     \<and> startId \<notin> set proto_keys
     \<and> gScore st ''__proto__'' = NaN"

definition sound_route :: "string \<Rightarrow> string \<Rightarrow> edge list \<Rightarrow> string list \<Rightarrow> bool" where
  "sound_route s g es p \<longleftrightarrow>
     p \<noteq> [] \<and> distinct p \<and> hd p = s \<and> last p = g
     \<and> successively (\<lambda>a b. \<exists>e\<in>set es. connects e a b) p"

section \<open>Static weights, walks and the reference shortest path\<close>

text \<open>The static weight of leaving \<open>c\<close> over edge \<open>e\<close>: travel time in minutes plus the
  red-light penalty of the node reached. It is the cost of \<open>edge_cost\<close> without the turn
  penalty and the road-level factor.\<close>

definition static_weight :: "node list \<Rightarrow> string \<Rightarrow> edge \<Rightarrow> real" where
  "static_weight ns c e =
     length_km e / max 0.1 (currentSpeed e) * 60
     + (if red_node ns (neighborId c e) then 0.5 else 0)"

text \<open>A walk is the list of edges taken from a node, each left from the node reached so far.\<close>

fun is_walk :: "edge list \<Rightarrow> string \<Rightarrow> edge list \<Rightarrow> bool" where
  "is_walk es a [] = True"
| "is_walk es a (e # w) =
     (e \<in> set es \<and> (source e = a \<or> target e = a) \<and> is_walk es (neighborId a e) w)"

fun walk_end :: "string \<Rightarrow> edge list \<Rightarrow> string" where
  "walk_end a [] = a"
| "walk_end a (e # w) = walk_end (neighborId a e) w"

fun walk_nodes :: "string \<Rightarrow> edge list \<Rightarrow> string list" where
  "walk_nodes a [] = [a]"
| "walk_nodes a (e # w) = a # walk_nodes (neighborId a e) w"

fun walk_cost :: "node list \<Rightarrow> string \<Rightarrow> edge list \<Rightarrow> real" where
  "walk_cost ns a [] = 0"
| "walk_cost ns a (e # w) = static_weight ns a e + walk_cost ns (neighborId a e) w"

text \<open>The reference of the specification: Dijkstra's algorithm on the static weights,
  with a table of tentative distances and a linear scan for the closest unsettled node.
  Each round settles one node, so as many rounds as there are nodes suffice.\<close>

fun closest :: "(string \<rightharpoonup> real) \<Rightarrow> string list \<Rightarrow> (string \<times> real) option" where
  "closest tent [] = None"
| "closest tent (v # vs) =
     (case tent v of
        None \<Rightarrow> closest tent vs
      | Some d \<Rightarrow>
          (case closest tent vs of
             None \<Rightarrow> Some (v, d)
           | Some (u, du) \<Rightarrow> if d \<le> du then Some (v, d) else Some (u, du)))"

definition settle :: "node list \<Rightarrow> string \<Rightarrow> real \<Rightarrow> (string \<rightharpoonup> real) \<Rightarrow> edge \<Rightarrow> (string \<rightharpoonup> real)" where
  "settle ns u du tent e =
     (let v = neighborId u e; dv = du + static_weight ns u e
      in case tent v of
           None \<Rightarrow> tent(v \<mapsto> dv)
         | Some d \<Rightarrow> if dv < d then tent(v \<mapsto> dv) else tent)"

fun dijkstra_rounds :: "node list \<Rightarrow> edge list \<Rightarrow> nat \<Rightarrow> (string \<rightharpoonup> real) \<Rightarrow> string list \<Rightarrow> (string \<rightharpoonup> real)" where
  "dijkstra_rounds ns es 0 tent unsettled = tent"
| "dijkstra_rounds ns es (Suc n) tent unsettled =
     (case closest tent unsettled of
        None \<Rightarrow> tent
      | Some (u, du) \<Rightarrow>
          dijkstra_rounds ns es n (foldl (settle ns u du) tent (neighbors es u))
            (removeAll u unsettled))"

definition graph_nodes :: "string \<Rightarrow> edge list \<Rightarrow> string list" where
  "graph_nodes startId es = remdups (startId # concat (map (\<lambda>e. [source e, target e]) es))"

definition dijkstra_reference :: "node list \<Rightarrow> edge list \<Rightarrow> string \<Rightarrow> string \<Rightarrow> real option" where
  "dijkstra_reference ns es startId endId =
     dijkstra_rounds ns es (length (graph_nodes startId es)) [startId \<mapsto> 0]
       (graph_nodes startId es) endId"

text \<open>The graphs of claim C2: the road-level factor is 1 on every edge, and no two edges
  that share a node differ in direction, so that no turn penalty is ever due. Lengths are
  positive and the endpoints of the edges are listed nodes, as the data model has it.\<close>

definition plain_graph :: "node list \<Rightarrow> edge list \<Rightarrow> bool" where
  "plain_graph ns es \<longleftrightarrow>
     (\<forall>e\<in>set es. 60 \<le> limit e \<and> 0 < length_km e
                  \<and> source e \<in> node_id ` set ns \<and> target e \<in> node_id ` set ns)
     \<and> (\<forall>e1\<in>set es. \<forall>e2\<in>set es. \<forall>a b c.
           connects e1 a b \<and> connects e2 b c \<longrightarrow> getDirection ns a b = getDirection ns b c)"

text \<open>The heuristic never overestimates: it is at most the cost of every walk to the goal.\<close>

definition admissible :: "node list \<Rightarrow> edge list \<Rightarrow> string \<Rightarrow> bool" where
  "admissible ns es endId \<longleftrightarrow>
     (\<forall>v w. is_walk es v w \<and> walk_end v w = endId \<longrightarrow> heuristic ns endId v \<le> walk_cost ns v w)"

text \<open>The heuristic is consistent along every edge, in both directions.\<close>

definition consistent :: "node list \<Rightarrow> edge list \<Rightarrow> string \<Rightarrow> bool" where
  "consistent ns es endId \<longleftrightarrow>
     (\<forall>e\<in>set es. heuristic ns endId (source e) \<le> static_weight ns (source e) e + heuristic ns endId (target e)
                \<and> heuristic ns endId (target e) \<le> static_weight ns (target e) e + heuristic ns endId (source e))"

section \<open>Invariants of the search\<close>

text \<open>The score \<open>a\<close> is a finite number not above \<open>x\<close>.\<close>

definition at_most :: "jsnum \<Rightarrow> real \<Rightarrow> bool" where
  "at_most a x = (case a of Fin d \<Rightarrow> d \<le> x | _ \<Rightarrow> False)"

text \<open>Along the walk \<open>w\<close> from \<open>a\<close>, started with cost \<open>acc\<close>, the score of every node
  reached is at most the cost of reaching it along the walk.\<close>

fun tight :: "(string \<Rightarrow> jsnum) \<Rightarrow> node list \<Rightarrow> string \<Rightarrow> real \<Rightarrow> edge list \<Rightarrow> bool" where
  "tight g ns a acc [] = at_most (g a) acc"
| "tight g ns a acc (e # w) =
     (at_most (g a) acc \<and> tight g ns (neighborId a e) (acc + static_weight ns a e) w)"

text \<open>The score \<open>d\<close> of \<open>v\<close> is the cost of a walk from the start that repeats no node.\<close>

definition witnessed :: "node list \<Rightarrow> edge list \<Rightarrow> string \<Rightarrow> (string \<Rightarrow> jsnum) \<Rightarrow> string \<Rightarrow> real \<Rightarrow> bool" where
  "witnessed ns es s g v d \<longleftrightarrow>
     (\<exists>w. is_walk es s w \<and> walk_end s w = v \<and> walk_cost ns s w = d
          \<and> distinct (walk_nodes s w) \<and> tight g ns s 0 w)"

definition search_inv :: "node list \<Rightarrow> edge list \<Rightarrow> string \<Rightarrow> string \<Rightarrow> astar \<Rightarrow> bool" where
  "search_inv ns es s goal st \<longleftrightarrow>
     tree_inv s es st
     \<and> gScore st s = Fin 0
     \<and> (\<forall>v\<in>node_id ` set ns. gScore st v = PInf \<or> (\<exists>d. gScore st v = Fin d))
     \<and> (\<forall>v\<in>set (openSet st). \<exists>d. gScore st v = Fin d)
     \<and> (\<forall>v d. gScore st v = Fin d \<longrightarrow> fScore st v = Fin (d + heuristic ns goal v))
     \<and> ((\<exists>d. gScore st goal = Fin d) \<longrightarrow> goal \<in> set (openSet st))
     \<and> (\<forall>n p. cameFrom st n = Some p \<longrightarrow>
           (\<exists>e\<in>set es. connects e p n
              \<and> (\<exists>dp dn. gScore st p = Fin dp \<and> gScore st n = Fin dn
                    \<and> dp + static_weight ns p e \<le> dn)))
     \<and> (\<forall>v d. gScore st v = Fin d \<longrightarrow> witnessed ns es s (gScore st) v d)"

text \<open>A node that has a score and is not open has been relaxed along all its edges.\<close>

definition closed_at :: "node list \<Rightarrow> edge list \<Rightarrow> astar \<Rightarrow> string \<Rightarrow> bool" where
  "closed_at ns es st u \<longleftrightarrow>
     (\<forall>d. gScore st u = Fin d \<and> u \<notin> set (openSet st) \<longrightarrow>
        (\<forall>e\<in>set es. source e = u \<or> target e = u \<longrightarrow>
           at_most (gScore st (neighborId u e)) (d + static_weight ns u e)))"

text \<open>The measure of termination: the scores come from the finitely many costs of walks
  that repeat no node, and every relaxation lowers one of them.\<close>

definition candidates :: "node list \<Rightarrow> edge list \<Rightarrow> string \<Rightarrow> real set" where
  "candidates ns es s = walk_cost ns s ` {w. set w \<subseteq> set es \<and> length w \<le> length ns}"

definition rank :: "real set \<Rightarrow> jsnum \<Rightarrow> nat" where
  "rank C a = (case a of Fin d \<Rightarrow> card {c \<in> C. c < d} | _ \<Rightarrow> card C + 1)"

definition potential :: "node list \<Rightarrow> edge list \<Rightarrow> string \<Rightarrow> astar \<Rightarrow> nat" where
  "potential ns es s st =
     (\<Sum>v\<in>insert s (node_id ` set ns). rank (candidates ns es s) (gScore st v))"

text \<open>Every bound on a score of \<open>g\<close> holds of \<open>g'\<close> too.\<close>

definition lowers :: "(string \<Rightarrow> jsnum) \<Rightarrow> (string \<Rightarrow> jsnum) \<Rightarrow> bool" where
  "lowers g g' \<longleftrightarrow> (\<forall>x y. at_most (g x) y \<longrightarrow> at_most (g' x) y)"

text \<open>The invariant inside the loop over the edges of the node \<open>c\<close> taken from the open
  set with score \<open>dc\<close>.\<close>

definition mid_inv :: "node list \<Rightarrow> edge list \<Rightarrow> string \<Rightarrow> string \<Rightarrow> string \<Rightarrow> real \<Rightarrow> astar \<Rightarrow> bool" where
  "mid_inv ns es s goal c dc st \<longleftrightarrow>
     search_inv ns es s goal st
     \<and> gScore st c = Fin dc
     \<and> c \<notin> set (openSet st)
     \<and> (c = s \<or> c \<in> dom (cameFrom st))
     \<and> (\<forall>u. u \<noteq> c \<longrightarrow> closed_at ns es st u)"

text \<open>The invariant at the head of the \<open>while\<close> loop.\<close>

definition head_inv :: "node list \<Rightarrow> edge list \<Rightarrow> string \<Rightarrow> string \<Rightarrow> astar \<Rightarrow> bool" where
  "head_inv ns es s goal st \<longleftrightarrow> search_inv ns es s goal st \<and> (\<forall>u. closed_at ns es st u)"

text \<open>The route \<open>r\<close> is a shortest one: its time is the static cost of a walk along its
  nodes from start to goal, and no walk from start to goal costs less.\<close>

definition optimal_route :: "node list \<Rightarrow> edge list \<Rightarrow> string \<Rightarrow> string \<Rightarrow> route \<Rightarrow> bool" where
  "optimal_route ns es s goal r \<longleftrightarrow>
     (\<exists>d w. time r = Fin d \<and> is_walk es s w \<and> path r = map NodeId (walk_nodes s w) \<and> walk_end s w = goal
           \<and> walk_cost ns s w = d
           \<and> (\<forall>w'. is_walk es s w' \<and> walk_end s w' = goal \<longrightarrow> d \<le> walk_cost ns s w'))"

section \<open>Invariants of the reference algorithm\<close>

text \<open>Every node with a tentative distance that is outside \<open>unsettled\<close> has been relaxed
  along all its edges.\<close>

definition all_relaxed :: "node list \<Rightarrow> edge list \<Rightarrow> (string \<rightharpoonup> real) \<Rightarrow> string list \<Rightarrow> bool" where
  "all_relaxed ns es tent unsettled \<longleftrightarrow>
     (\<forall>u du. tent u = Some du \<and> u \<notin> set unsettled \<longrightarrow>
        (\<forall>e\<in>set es. source e = u \<or> target e = u \<longrightarrow>
           (\<exists>dv. tent (neighborId u e) = Some dv \<and> dv \<le> du + static_weight ns u e)))"

text \<open>Every tentative distance is the cost of a walk from the start.\<close>

definition realised :: "node list \<Rightarrow> edge list \<Rightarrow> string \<Rightarrow> (string \<rightharpoonup> real) \<Rightarrow> bool" where
  "realised ns es s tent \<longleftrightarrow>
     (\<forall>v d. tent v = Some d \<longrightarrow>
        (\<exists>w. is_walk es s w \<and> walk_end s w = v \<and> walk_cost ns s w = d))"

definition dijkstra_inv :: "node list \<Rightarrow> edge list \<Rightarrow> string \<Rightarrow> (string \<rightharpoonup> real) \<Rightarrow> string list \<Rightarrow> bool" where
  "dijkstra_inv ns es s tent unsettled \<longleftrightarrow>
     tent s = Some 0
     \<and> realised ns es s tent
     \<and> all_relaxed ns es tent unsettled
     \<and> (\<forall>u du x dx. tent u = Some du \<and> u \<notin> set unsettled \<and> tent x = Some dx \<and> x \<in> set unsettled
           \<longrightarrow> du \<le> dx)
     \<and> (\<forall>e\<in>set es. (source e \<in> set unsettled \<or> tent (source e) \<noteq> None)
                    \<and> (target e \<in> set unsettled \<or> tent (target e) \<noteq> None))"

section \<open>The decision log\<close>

lemma addLog_short: "length prev < 100 \<Longrightarrow> addLog clk msg ty prev = []"
  by (simp add: addLog_def)

text \<open>
  Claim C5 asks that each new entry is placed at the front of the log and is kept while the
  log holds at most 100 entries. The code keeps the elements from index 100 on instead:
  starting from the empty log, whatever calls of \<open>addLog\<close> are made, the log stays empty.
\<close>

theorem addLog_never_records:
  "fold (\<lambda>(clk, msg, ty). addLog clk msg ty) calls [] = []"
  by (induction calls) (auto simp: addLog_def)

section \<open>The environment tick and incidents\<close>

lemma tick_edges_length: "length (fst (tick_edges rnd k es)) = length es"
  by (induction rnd k es rule: tick_edges.induct) (auto split: prod.splits)

lemma tick_edges_congested:
  "i < length es \<Longrightarrow> congested (es ! i) \<Longrightarrow> fst (tick_edges rnd k es) ! i = es ! i"
proof (induction rnd k es arbitrary: i rule: tick_edges.induct)
  case (1 rnd k)
  then show ?case by simp
next
  case (2 rnd k e es)
  then show ?case by (cases i) (auto split: prod.splits)
qed

lemma environment_tick_edges:
  "edges (environment_tick rnd st) =
     (if isPlaying st then fst (tick_edges rnd (snd (tick_nodes rnd 0 (nodes st))) (edges st))
      else edges st)"
  by (auto simp: environment_tick_def split: prod.splits)

lemma environment_ticks_congested:
  "i < length (edges st) \<Longrightarrow> congested (edges st ! i) \<Longrightarrow>
   length (edges (fold environment_tick rnds st)) = length (edges st) \<and>
   edges (fold environment_tick rnds st) ! i = edges st ! i"
proof (induction rnds arbitrary: st)
  case Nil
  then show ?case by simp
next
  case (Cons r rs)
  let ?st = "environment_tick r st"
  have a: "length (edges ?st) = length (edges st)"
    by (simp add: environment_tick_edges tick_edges_length)
  have b: "edges ?st ! i = edges st ! i"
    using Cons.prems by (simp add: environment_tick_edges tick_edges_congested)
  from Cons.IH[of ?st] a b Cons.prems show ?case by simp
qed

text \<open>
  Claim C8: an edge marked incident by \<open>triggerCongestion\<close> is left entirely unchanged by
  every later environment tick, whatever the random draws: after any number of ticks it
  is still the edge as the injection left it (forced speed, incident flag set).
\<close>

theorem incident_edge_frozen:
  assumes "i < length (edges st)" and "edge_id (edges st ! i) = edgeId"
  shows "edges (fold environment_tick rnds (triggerCongestion clk edgeId speed reason st)) ! i
           = (edges st ! i)\<lparr>currentSpeed := speed, congested := True\<rparr>"
proof -
  let ?st = "triggerCongestion clk edgeId speed reason st"
  have l: "i < length (edges ?st)" using assms by (simp add: triggerCongestion_def)
  have e: "edges ?st ! i = (edges st ! i)\<lparr>currentSpeed := speed, congested := True\<rparr>"
    using assms by (simp add: triggerCongestion_def)
  then have "congested (edges ?st ! i)" by simp
  from environment_ticks_congested[OF l this, of rnds] e show ?thesis by simp
qed

theorem incident_edge_frozen_witness:
  "edges (fold environment_tick [\<lambda>_. 99 / 100, \<lambda>_. 1 / 10]
            (triggerCongestion noon ''S-M'' 2 ''Sudden Accident'' driving)) ! 0
     = \<lparr>edge_id = ''S-M'', source = ''S'', target = ''M'', length_km = 1, limit = 120,
        baseSpeed = 120, currentSpeed = 2, congested = True\<rparr>"
  using incident_edge_frozen [of 0 driving "''S-M''" "[\<lambda>_. 99 / 100, \<lambda>_. 1 / 10]" noon 2
      "''Sudden Accident''"]
  by (simp add: driving_def initial_simulation_def bypass_edges_def)

lemma well_formed_ambient_ok: "well_formed_edge e \<Longrightarrow> ambient_ok e"
  by (auto simp: well_formed_edge_def ambient_ok_def speed_invariant_def)

lemma perturb_ambient_ok:
  assumes "ambient_ok e"
  shows "ambient_ok (perturb r1 r2 e)"
proof -
  have l: "5 \<le> limit e" and b: "baseSpeed e \<le> limit e"
    using assms by (auto simp: ambient_ok_def)
  define s1 where "s1 = max 5 (min (limit e) (baseSpeed e + (r1 - 0.5) * 15))"
  define s2 where "s2 = (if r2 > 0.95 then max 5 (baseSpeed e * 0.2) else s1)"
  have p: "perturb r1 r2 e = e\<lparr>currentSpeed := of_int \<lfloor>s2\<rfloor>\<rparr>"
    by (simp add: perturb_def s1_def s2_def Let_def)
  have "5 \<le> s1" "s1 \<le> limit e" using l by (auto simp: s1_def)
  moreover have "baseSpeed e * 0.2 \<le> limit e" using l b by (cases "0 \<le> baseSpeed e") auto
  ultimately have lo: "5 \<le> s2" and hi: "s2 \<le> limit e" using l by (auto simp: s2_def)
  have "(5::real) \<le> of_int \<lfloor>s2\<rfloor>" using lo by (simp add: le_floor_iff)
  moreover have "of_int \<lfloor>s2\<rfloor> \<le> limit e" using hi of_int_floor_le[of s2] by linarith
  ultimately show ?thesis using l b by (simp add: p ambient_ok_def speed_invariant_def)
qed

lemma tick_edges_ambient_ok:
  "list_all ambient_ok es \<Longrightarrow> list_all ambient_ok (fst (tick_edges rnd k es))"
  by (induction rnd k es rule: tick_edges.induct)
     (auto split: prod.splits simp: perturb_ambient_ok)

lemma environment_tick_ambient_ok:
  "list_all ambient_ok (edges st) \<Longrightarrow> list_all ambient_ok (edges (environment_tick rnd st))"
  using tick_edges_ambient_ok[of "edges st" rnd "snd (tick_nodes rnd 0 (nodes st))"]
  by (auto simp: environment_tick_def split: prod.splits)

lemma triggerCongestion_ambient_ok:
  "list_all ambient_ok (edges st) \<Longrightarrow>
   list_all ambient_ok (edges (triggerCongestion clk edgeId speed reason st))"
  by (auto simp: triggerCongestion_def list_all_iff ambient_ok_def)

lemma reroute_edges: "edges (reroute clk r st) = edges st"
  by (simp add: reroute_def Let_def)

lemma planning_effect_edges: "planning_effect clk st = Some st' \<Longrightarrow> edges st' = edges st"
  by (auto simp: planning_effect_def reroute_edges split: if_splits option.splits search.splits)

lemma vehicle_tick_edges: "edges (vehicle_tick clk st) = edges st"
  by (simp add: vehicle_tick_def Let_def split: option.splits)

lemma apply_event_ambient_ok:
  assumes "list_all ambient_ok init" and "list_all ambient_ok (edges st)"
    and "apply_event init ev st = Some st'"
  shows "list_all ambient_ok (edges st')"
proof (cases ev)
  case (EnvironmentTick rnd)
  then show ?thesis using assms environment_tick_ambient_ok by auto
next
  case (PlanningEffect clk)
  then show ?thesis using assms planning_effect_edges by auto
next
  case (VehicleTick clk)
  then show ?thesis using assms vehicle_tick_edges by auto
next
  case (TriggerCongestion clk edgeId speed reason)
  then show ?thesis using assms triggerCongestion_ambient_ok by auto
next
  case (HandleReset clk)
  then show ?thesis using assms by (auto simp: handleReset_def)
next
  case (TogglePlay clk)
  then show ?thesis using assms by (auto simp: toggle_play_def)
next
  case (SetPenaltyWeight w)
  then show ?thesis using assms by auto
qed

lemma run_ambient_ok:
  "list_all ambient_ok init \<Longrightarrow> list_all ambient_ok (edges st) \<Longrightarrow> run init evs st = Some st'
   \<Longrightarrow> list_all ambient_ok (edges st')"
proof (induction evs arbitrary: st)
  case Nil
  then show ?case by simp
next
  case (Cons ev evs)
  then obtain st1 where 1: "apply_event init ev st = Some st1" and 2: "run init evs st1 = Some st'"
    by (auto split: option.splits)
  from apply_event_ambient_ok[OF Cons.prems(1,2) 1] Cons.IH[OF Cons.prems(1) _ 2]
  show ?case by simp
qed

text \<open>
  Claim C6 as stated fails: the random-accident button stores the forced speed 2 without
  clamping, so the edge it hits has \<open>currentSpeed = 2 < minSpeed\<close> although the initial
  graph satisfies the invariant.
\<close>

theorem forced_speed_below_minimum:
  "list_all speed_invariant bypass_edges
   \<and> map_option (\<lambda>st. list_all speed_invariant (edges st))
       (run bypass_edges [TriggerCongestion noon ''S-M'' 2 ''Sudden Accident'']
          (initial_simulation bypass_edges bypass_nodes)) = Some False"
  by (simp add: bypass_edges_def speed_invariant_def initial_simulation_def triggerCongestion_def)

text \<open>
  Claim C6 as amended: in every state reached from the initial state by environment ticks,
  incident injections with any forced speed, resets and the other events of the
  simulation, every edge that is not marked incident satisfies
  \<open>0 < minSpeed \<le> currentSpeed \<le> limit\<close>, provided the edges of the initial graph satisfy
  it and have \<open>baseSpeed \<le> limit\<close>.
\<close>

theorem ambient_speed_invariant:
  assumes "list_all well_formed_edge INITIAL_EDGES"
    and "run INITIAL_EDGES evs (initial_simulation INITIAL_EDGES NODES) = Some st"
    and "e \<in> set (edges st)" and "\<not> congested e"
  shows "speed_invariant e"
proof -
  have i: "list_all ambient_ok INITIAL_EDGES"
    using assms(1) by (auto simp: list_all_iff well_formed_ambient_ok)
  then have "list_all ambient_ok (edges (initial_simulation INITIAL_EDGES NODES))"
    by (simp add: initial_simulation_def)
  from run_ambient_ok[OF i this assms(2)] assms(3,4) show ?thesis
    by (auto simp: list_all_iff ambient_ok_def)
qed

theorem ambient_speed_invariant_witness:
  "speed_invariant \<lparr>edge_id = ''S-G'', source = ''S'', target = ''G'', length_km = 2,
     limit = 120, baseSpeed = 100, currentSpeed = 103, congested = False\<rparr>"
proof -
  let ?evs = "[TogglePlay noon, TriggerCongestion noon ''S-M'' 2 ''Sudden Accident'',
               EnvironmentTick (\<lambda>_. 7 / 10)]"
  let ?e = "\<lparr>edge_id = ''S-G'', source = ''S'', target = ''G'', length_km = 2,
     limit = 120, baseSpeed = 100, currentSpeed = 103, congested = False\<rparr>"
  have w: "list_all well_formed_edge bypass_edges"
    by (simp add: bypass_edges_def well_formed_edge_def speed_invariant_def)
  obtain st where r: "run bypass_edges ?evs (initial_simulation bypass_edges bypass_nodes) = Some st"
    and e: "edges st ! 2 = ?e" and l: "length (edges st) = 3"
    by (simp add: bypass_edges_def bypass_nodes_def initial_simulation_def toggle_play_def
        triggerCongestion_def environment_tick_def perturb_def Let_def)
  have "?e \<in> set (edges st)" using e l nth_mem[of 2 "edges st"] by simp
  from ambient_speed_invariant[OF w r this] show ?thesis by simp
qed

section \<open>The reroute decision\<close>

lemma shouldReroute_Fin:
  "shouldReroute (Fin est) elapsed (Fin tn) pw \<longleftrightarrow>
     (max 0.1 (est - elapsed) - tn) - pw > 0 \<and>
     (max 0.1 (est - elapsed) - tn) / max 0.1 (est - elapsed) > 0.2"
proof -
  define old where "old = max 0.1 (est - elapsed)"
  have "old \<noteq> 0" unfolding old_def by linarith
  then show ?thesis
    by (simp add: shouldReroute_def netBenefit_def relativeImprovement_def rawTimeSaved_def
      oldRemainingTime_def jsub_def jgt_def old_def[symmetric])
qed

text \<open>The comparison of the comma-joined ids is the comparison of the node sequences
  as long as no id contains a comma and neither sequence is empty.\<close>

lemma comma_split:
  "CHR '','' \<notin> set a \<Longrightarrow> CHR '','' \<notin> set b \<Longrightarrow> a @ '','' @ r = b @ '','' @ r'
   \<Longrightarrow> a = b \<and> r = r'"
proof (induction a arbitrary: b)
  case Nil
  then show ?case by (cases b) auto
next
  case (Cons x a)
  then show ?case by (cases b) auto
qed

lemma join_comma_single:
  "CHR '','' \<notin> set a \<Longrightarrow> join_comma (b # c # cs) \<noteq> a"
  by auto

lemma join_comma_inj:
  "xs \<noteq> [] \<Longrightarrow> ys \<noteq> [] \<Longrightarrow> \<forall>a\<in>set xs \<union> set ys. CHR '','' \<notin> set a
   \<Longrightarrow> join_comma xs = join_comma ys \<Longrightarrow> xs = ys"
proof (induction xs arbitrary: ys rule: join_comma.induct)
  case 1
  then show ?case by simp
next
  case (2 a)
  then show ?case
  proof (cases ys rule: join_comma.cases)
    case (3 b c cs)
    with 2 join_comma_single[of a b c cs] show ?thesis by auto
  qed auto
next
  case (3 a b cs)
  show ?case
  proof (cases ys rule: join_comma.cases)
    case 1
    with 3 show ?thesis by simp
  next
    case (2 a')
    with 3 join_comma_single[of a' a b cs] show ?thesis by auto
  next
    case inner: (3 a' b' cs')
    with 3 have "a @ '','' @ join_comma (b # cs) = a' @ '','' @ join_comma (b' # cs')"
      and "CHR '','' \<notin> set a" "CHR '','' \<notin> set a'" by auto
    from comma_split[OF this(2,3,1)] have "a = a'" "join_comma (b # cs) = join_comma (b' # cs')"
      by auto
    moreover from 3(1)[of "b' # cs'"] 3(4) inner this(2) have "b # cs = b' # cs'" by auto
    ultimately show ?thesis using inner by simp
  qed
qed




text \<open>
  Claim C4: acceptance is antitone in the penalty weight. If the decision rule accepts at
  penalty weight \<open>p2\<close> and \<open>p1 \<le> p2\<close>, it accepts at \<open>p1\<close>, for the same estimate, elapsed
  time and candidate time.
\<close>

theorem shouldReroute_antitone:
  assumes "shouldReroute est elapsed newRemaining p2" and "p1 \<le> p2"
  shows "shouldReroute est elapsed newRemaining p1"
proof -
  obtain s where s: "rawTimeSaved est elapsed newRemaining = s" by simp
  show ?thesis using assms s
    by (cases s) (auto simp: shouldReroute_def netBenefit_def jsub_def jgt_def)
qed

theorem shouldReroute_antitone_witness:
  "shouldReroute (Fin 10) 0 (Fin 5) 1.5 \<and> (1::real) \<le> 1.5 \<and> shouldReroute (Fin 10) 0 (Fin 5) 1"
proof -
  have a: "shouldReroute (Fin 10) 0 (Fin 5) 1.5" by (simp add: shouldReroute_Fin)
  have b: "(1::real) \<le> 1.5" by simp
  from a b shouldReroute_antitone [OF a b] show ?thesis by simp
qed

lemma reroute_same_path:
  "path r = drop (carNodeIndex st) (currentPath st) \<Longrightarrow> reroute clk r st = st"
  by (simp add: reroute_def)

text \<open>
  Claim C9: when the route the planner returns from the vehicle's current node is the
  remaining suffix of the committed path, the planning effect leaves the whole state as
  it is: same path, estimate and reroute counter, and no log entry.
\<close>

theorem same_route_no_op:
  assumes "isPlaying st"
    and "findBestPath_from (currentPath st ! carNodeIndex st) (endNode st) (edges st) (nodes st)
           = Some (Found newRouteFromHere)"
    and "path newRouteFromHere = drop (carNodeIndex st) (currentPath st)"
  shows "planning_effect clk st = Some st"
  using assms by (simp add: planning_effect_def reroute_same_path)

lemma findBestPath_bypass:
  "findBestPath ''S'' ''G'' bypass_edges bypass_nodes
     = Some (Found \<lparr>path = [NodeId ''S'', NodeId ''G''], time = Fin (6 / 5)\<rparr>)"
  by (simp add: findBestPath_def astar_init_def bypass_edges_def bypass_nodes_def astar_loop.simps
     reconstruct.simps lowest_def neighbors_def relax_def edge_cost_def neighborId_def find_node_def
     heuristic_def getDirection_def add_open_def js_set_def js_get_def proto_keys_def Let_def)

theorem same_route_no_op_witness:
  "isPlaying driving \<and> planning_effect noon driving = Some driving"
proof -
  have p: "isPlaying driving" by (simp add: driving_def initial_simulation_def)
  have f: "findBestPath_from (currentPath driving ! carNodeIndex driving) (endNode driving)
             (edges driving) (nodes driving)
             = Some (Found \<lparr>path = [NodeId ''S'', NodeId ''G''], time = Fin (6 / 5)\<rparr>)"
    using findBestPath_bypass by (simp add: driving_def initial_simulation_def)
  have s: "path \<lparr>path = [NodeId ''S'', NodeId ''G''], time = Fin (6 / 5)\<rparr>
             = drop (carNodeIndex driving) (currentPath driving)"
    by (simp add: driving_def initial_simulation_def)
  from p same_route_no_op [OF p f s, of noon] show ?thesis by simp
qed

section \<open>The vehicle movement tick\<close>



text \<open>With the edge index at or past the last position of the committed path, the tick
  stops the simulation and calls \<open>addLog\<close>, which returns the log without its 99 newest
  entries and without the entry it was given.\<close>

lemma arrival_branch:
  assumes "isPlaying st" and "length (currentPath st) \<le> Suc (carNodeIndex st)"
  shows "vehicle_tick clk st = st\<lparr>isPlaying := False, logs := drop 99 (logs st)\<rparr>"
proof -
  have "int (carNodeIndex st) \<ge> int (length (currentPath st)) - 1" using assms(2) by linarith
  then show ?thesis using assms(1) by (simp add: vehicle_tick_def addLog_def)
qed

text \<open>
  Claim C10, on the empty committed path and on a committed path of one node: the first
  movement tick takes the arrival branch and stops the simulation, but no entry is
  logged. The "Destination Reached" entry is handed to \<open>addLog\<close>, whose \<open>slice(100)\<close> drops
  it: the log is empty after the tick as it was before, and the state is the one that the
  branch of the lost connectivity would leave as well.
\<close>

theorem arrival_entry_not_logged:
  "isPlaying no_route \<and> currentPath no_route = [] \<and> logs no_route = []
   \<and> vehicle_tick noon no_route = no_route\<lparr>isPlaying := False\<rparr>
   \<and> logs (vehicle_tick noon no_route) = []
   \<and> vehicle_tick noon (no_route\<lparr>currentPath := [NodeId ''G'']\<rparr>)
       = no_route\<lparr>currentPath := [NodeId ''G''], isPlaying := False\<rparr>"
  using arrival_branch [of no_route noon] arrival_branch [of "no_route\<lparr>currentPath := [NodeId ''G'']\<rparr>" noon]
  by (simp add: no_route_def initial_simulation_def)
section \<open>Paths returned by the planner\<close>

text \<open>From a node id, the reconstruction climbs the chain of predecessors; where the chain
  ends at an id that is not the name of an inherited member, it returns the chain.\<close>

lemma reconstruct_walk_up:
  "reconstruct cf x acc = Some p \<Longrightarrow> x = NodeId c
   \<Longrightarrow> \<exists>as. walk_up cf c as
          \<and> (last (c # as) \<notin> set proto_keys \<longrightarrow> p = map NodeId (rev as) @ acc)"
proof (induction arbitrary: c rule: reconstruct.raw_induct[rotated 1, consumes 1])
  case (1 reconstruct cf x acc p)
  show ?case
  proof (cases "cf c")
    case None
    with 1(2,3) show ?thesis
      by (intro exI[of _ "[]"]) (auto simp: js_get_def split: if_splits)
  next
    case (Some a)
    with 1(2,3) have "reconstruct cf (NodeId a) (NodeId a # acc) = Some p"
      by (simp add: js_get_def)
    from 1(1)[OF this refl] obtain as where
      "walk_up cf a as" "last (a # as) \<notin> set proto_keys \<longrightarrow> p = map NodeId (rev as) @ NodeId a # acc"
      by blast
    with Some show ?thesis by (intro exI[of _ "a # as"]) simp
  qed
qed

lemma reconstruct_chain:
  "walk_up cf c as \<Longrightarrow> last (c # as) \<notin> set proto_keys
   \<Longrightarrow> reconstruct cf (NodeId c) acc = Some (map NodeId (rev as) @ acc)"
proof (induction as arbitrary: c acc)
  case Nil
  then show ?case by (simp add: reconstruct.simps js_get_def)
next
  case (Cons a as)
  then have "cf c = Some a" "walk_up cf a as" "last (a # as) \<notin> set proto_keys" by auto
  with Cons.IH[of a "NodeId a # acc"] show ?case
    by (subst reconstruct.simps) (simp add: js_get_def)
qed

lemma walk_up_unique: "walk_up cf c as \<Longrightarrow> walk_up cf c bs \<Longrightarrow> as = bs"
proof (induction as arbitrary: c bs)
  case Nil
  then show ?case by (cases bs) auto
next
  case (Cons a as)
  then show ?case by (cases bs) auto
qed

lemma walk_up_suffix: "walk_up cf c (as @ a # bs) \<Longrightarrow> walk_up cf a bs"
  by (induction as arbitrary: c) auto

lemma walk_up_not_self:
  assumes "walk_up cf c as"
  shows "c \<notin> set as"
proof
  assume "c \<in> set as"
  then obtain xs ys where s: "as = xs @ c # ys" by (auto simp: in_set_conv_decomp)
  with assms have "walk_up cf c ys" using walk_up_suffix by blast
  with assms have "as = ys" using walk_up_unique by blast
  with s show False by simp
qed

lemma walk_up_distinct: "walk_up cf c as \<Longrightarrow> distinct (c # as)"
proof (induction as arbitrary: c)
  case Nil
  then show ?case by simp
next
  case (Cons a as)
  from Cons.prems have "walk_up cf a as" by simp
  from Cons.IH[OF this] walk_up_not_self[OF Cons.prems] show ?case by simp
qed

lemma walk_up_linked:
  assumes "\<forall>n p. cf n = Some p \<longrightarrow> R p n"
  shows "walk_up cf c as \<Longrightarrow> successively R (c # rest) \<Longrightarrow> successively R (rev as @ c # rest)"
proof (induction as arbitrary: c rest)
  case Nil
  then show ?case by simp
next
  case (Cons a as)
  then have "cf c = Some a" "walk_up cf a as" by auto
  moreover from this assms Cons.prems have "successively R (a # c # rest)" by simp
  ultimately show ?case using Cons.IH[of a "c # rest"] by simp
qed

lemma walk_up_root:
  assumes "\<forall>n p. cf n = Some p \<longrightarrow> p = s \<or> p \<in> dom cf"
  shows "walk_up cf c as \<Longrightarrow> c = s \<or> c \<in> dom cf \<Longrightarrow> last (c # as) = s"
proof (induction as arbitrary: c)
  case Nil
  then show ?case by auto
next
  case (Cons a as)
  then have "cf c = Some a" "walk_up cf a as" by auto
  with assms Cons.IH[of a] show ?case by auto
qed

lemma relax_tree_inv:
  assumes "tree_inv s es st" and "e \<in> set es" and "source e = c \<or> target e = c"
    and "c = s \<or> c \<in> dom (cameFrom st)"
  shows "tree_inv s es (relax ns g c st e) \<and> dom (cameFrom st) \<subseteq> dom (cameFrom (relax ns g c st e))"
proof -
  have "connects e c (neighborId c e)"
    using assms(3) by (auto simp: connects_def neighborId_def)
  moreover have "\<not> jlt x NaN" for x by (cases x) simp_all
  ultimately show ?thesis
    using assms unfolding tree_inv_def relax_def Let_def add_open_def js_set_def
    by (auto simp: dom_def)
qed

lemma foldl_relax_tree_inv:
  assumes "set nbs \<subseteq> set es" and "\<forall>e\<in>set nbs. source e = c \<or> target e = c"
  shows "tree_inv s es st \<Longrightarrow> c = s \<or> c \<in> dom (cameFrom st)
     \<Longrightarrow> tree_inv s es (foldl (relax ns g c) st nbs)"
  using assms
proof (induction nbs arbitrary: st)
  case Nil
  then show ?case by simp
next
  case (Cons e nbs)
  from relax_tree_inv[OF Cons.prems(1), of e c ns g] Cons.prems
  have 1: "tree_inv s es (relax ns g c st e)"
    and 2: "c = s \<or> c \<in> dom (cameFrom (relax ns g c st e))" by auto
  from Cons.IH[OF 1 2] Cons.prems show ?case by simp
qed

lemma lowest_mem: "lowest f a bs \<in> set (a # bs)"
  unfolding lowest_def
proof (induction bs arbitrary: a)
  case Nil
  then show ?case by simp
next
  case (Cons b bs)
  from Cons[of "if jlt (f a) (f b) then a else b"] show ?case by auto
qed

lemma successively_nth:
  "successively R xs \<Longrightarrow> Suc i < length xs \<Longrightarrow> R (xs ! i) (xs ! Suc i)"
proof (induction xs arbitrary: i rule: induct_list012)
  case (3 x y zs)
  then show ?case by (cases i) auto
qed auto

lemma astar_loop_sound:
  "astar_loop ns es g st = Some res \<Longrightarrow> tree_inv s es st \<Longrightarrow> res = Found r
   \<Longrightarrow> \<exists>p. path r = map NodeId p \<and> sound_route s g es p"
proof (induction arbitrary: r rule: astar_loop.raw_induct[rotated 1, consumes 1])
  case (1 loop ns es g st res)
  show ?case
  proof (cases "openSet st")
    case Nil
    with 1(2,4) show ?thesis by simp
  next
    case (Cons a bs)
    define c where "c = lowest (fScore st) a bs"
    let ?st = "foldl (relax ns g c) (st\<lparr>openSet := removeAll c (openSet st)\<rparr>) (neighbors es c)"
    have body: "(if c = g
                 then map_option (\<lambda>totalPath. Found \<lparr>path = totalPath, time = gScore st g\<rparr>)
                        (reconstruct (cameFrom st) (NodeId c) [NodeId c])
                 else loop ns es g ?st) = Some res"
      using 1(2) unfolding Cons c_def by (simp add: Let_def)
    have cin: "c \<in> set (openSet st)"
      using lowest_mem[of "fScore st" a bs] unfolding Cons c_def by simp
    with 1(3) have croot: "c = s \<or> c \<in> dom (cameFrom st)"
      unfolding tree_inv_def by blast
    show ?thesis
    proof (cases "c = g")
      case True
      with body have "map_option (\<lambda>totalPath. Found \<lparr>path = totalPath, time = gScore st g\<rparr>)
                        (reconstruct (cameFrom st) (NodeId g) [NodeId g]) = Some (Found r)"
        using 1(4) by simp
      then obtain q where
        q: "reconstruct (cameFrom st) (NodeId g) [NodeId g] = Some q" and r: "path r = q"
        by auto
      from reconstruct_walk_up[OF q refl] obtain as where
        w: "walk_up (cameFrom st) g as"
        and qe: "last (g # as) \<notin> set proto_keys \<longrightarrow> q = map NodeId (rev as) @ [NodeId g]"
        by blast
      define p where "p = rev as @ [g]"
      have i1: "\<forall>n p. cameFrom st n = Some p \<longrightarrow> p = s \<or> p \<in> dom (cameFrom st)"
        and i2: "\<forall>n p. cameFrom st n = Some p \<longrightarrow> (\<exists>e\<in>set es. connects e p n)"
        and i3: "s \<notin> set proto_keys"
        using 1(3) unfolding tree_inv_def by blast+
      have ls: "last (g # as) = s"
        using walk_up_root[of "cameFrom st" s g as, OF i1 w] croot True by blast
      with qe i3 r have pe: "path r = map NodeId p" unfolding p_def by simp
      have d: "distinct p" using walk_up_distinct[OF w] p_def by auto
      have l: "last p = g" using p_def by simp
      from ls have h: "hd p = s" unfolding p_def by (cases as rule: rev_cases) (auto simp: hd_append)
      have "successively (\<lambda>a b. \<exists>e\<in>set es. connects e a b) (rev as @ g # [])"
        using walk_up_linked[of "cameFrom st" "\<lambda>a b. \<exists>e\<in>set es. connects e a b" g as "[]", OF i2 w]
        by simp
      with d l h p_def have "sound_route s g es p" by (simp add: sound_route_def)
      with pe show ?thesis by blast
    next
      case False
      with body have rec: "loop ns es g ?st = Some res" by simp
      have "tree_inv s es (st\<lparr>openSet := removeAll c (openSet st)\<rparr>)"
        using 1(3) by (auto simp: tree_inv_def)
      moreover have "set (neighbors es c) \<subseteq> set es"
        and "\<forall>e\<in>set (neighbors es c). source e = c \<or> target e = c"
        by (auto simp: neighbors_def)
      moreover have "c = s \<or> c \<in> dom (cameFrom (st\<lparr>openSet := removeAll c (openSet st)\<rparr>))"
        using croot by simp
      ultimately have "tree_inv s es ?st"
        using foldl_relax_tree_inv[of "neighbors es c" es c s "st\<lparr>openSet := removeAll c (openSet st)\<rparr>" ns g]
        by blast
      from 1(1)[OF rec this 1(4)] show ?thesis .
    qed
  qed
qed

text \<open>For a start id that is not the name of a member of \<open>Object.prototype\<close>: a path that
  \<open>findBestPath\<close> returns consists of node ids, none of them twice, it is not empty, its
  first element is the requested start and its last the requested goal, and every two
  consecutive nodes of it are the endpoints of an edge of the edge list.\<close>

lemma findBestPath_sound:
  assumes "findBestPath startId endId currentEdges ns = Some (Found r)"
    and "startId \<notin> set proto_keys"
  shows "\<exists>p. path r = map NodeId p
       \<and> distinct p \<and> p \<noteq> [] \<and> hd p = startId \<and> last p = endId
       \<and> (\<forall>i. Suc i < length p \<longrightarrow>
            (\<exists>e\<in>set currentEdges.
               (source e = p ! i \<and> target e = p ! Suc i)
             \<or> (source e = p ! Suc i \<and> target e = p ! i)))"
proof -
  from assms(2) have "startId \<noteq> ''__proto__''" by (auto simp: proto_keys_def)
  with assms(1) have run: "astar_loop ns currentEdges endId (astar_init startId endId ns) = Some (Found r)"
    by (simp add: findBestPath_def)
  have "foldl (\<lambda>g n. js_set g (node_id n) PInf) g0 ns ''__proto__'' = g0 ''__proto__''" for g0
    by (induction ns arbitrary: g0) (simp_all add: js_set_def)
  then have "tree_inv startId currentEdges (astar_init startId endId ns)"
    using assms(2) by (simp add: tree_inv_def astar_init_def js_set_def)
  from astar_loop_sound[OF run this refl] obtain p where
    pe: "path r = map NodeId p" and s: "sound_route startId endId currentEdges p" by blast
  then have "successively (\<lambda>a b. \<exists>e\<in>set currentEdges. connects e a b) p"
    by (simp add: sound_route_def)
  then have "\<forall>i. Suc i < length p \<longrightarrow> (\<exists>e\<in>set currentEdges. connects e (p ! i) (p ! Suc i))"
    using successively_nth[of "\<lambda>a b. \<exists>e\<in>set currentEdges. connects e a b" p] by blast
  with s pe show ?thesis by (auto simp: sound_route_def connects_def)
qed

section \<open>Optimality of the planner under an admissible heuristic\<close>

subsection \<open>Walks\<close>

lemma is_walk_append:
  "is_walk es a (w1 @ w2) \<longleftrightarrow> is_walk es a w1 \<and> is_walk es (walk_end a w1) w2"
  by (induction w1 arbitrary: a) auto

lemma walk_end_append: "walk_end a (w1 @ w2) = walk_end (walk_end a w1) w2"
  by (induction w1 arbitrary: a) auto

lemma walk_cost_append:
  "walk_cost ns a (w1 @ w2) = walk_cost ns a w1 + walk_cost ns (walk_end a w1) w2"
  by (induction w1 arbitrary: a) auto

lemma walk_nodes_snoc:
  "walk_nodes a (w @ [e]) = walk_nodes a w @ [neighborId (walk_end a w) e]"
  by (induction w arbitrary: a) auto

lemma length_walk_nodes: "length (walk_nodes a w) = Suc (length w)"
  by (induction w arbitrary: a) auto

lemma walk_end_in_nodes: "walk_end a w \<in> set (walk_nodes a w)"
  by (induction w arbitrary: a) auto

lemma walk_nodes_not_Nil [simp]: "walk_nodes a w \<noteq> []"
  by (cases w) auto

lemma last_walk_nodes: "last (walk_nodes a w) = walk_end a w"
  by (induction w arbitrary: a) auto

lemma hd_walk_nodes: "hd (walk_nodes a w) = a"
  by (cases w) auto

lemma static_weight_pos:
  assumes "plain_graph ns es" and "e \<in> set es"
  shows "0 < static_weight ns c e"
proof -
  have "0 < length_km e" using assms by (auto simp: plain_graph_def)
  moreover have "(0::real) < max 0.1 (currentSpeed e)" by simp
  ultimately have "0 < length_km e / max 0.1 (currentSpeed e) * 60" by simp
  then show ?thesis by (simp add: static_weight_def)
qed

lemma walk_cost_nonneg:
  "plain_graph ns es \<Longrightarrow> is_walk es a w \<Longrightarrow> 0 \<le> walk_cost ns a w"
proof (induction w arbitrary: a)
  case Nil
  then show ?case by simp
next
  case (Cons e w)
  then show ?case using static_weight_pos[of ns es e a] by fastforce
qed

lemma neighborId_listed:
  "plain_graph ns es \<Longrightarrow> e \<in> set es \<Longrightarrow> neighborId c e \<in> node_id ` set ns"
  by (auto simp: plain_graph_def neighborId_def)

lemma walk_nodes_listed:
  "plain_graph ns es \<Longrightarrow> is_walk es a w \<Longrightarrow> set (walk_nodes a w) \<subseteq> insert a (node_id ` set ns)"
proof (induction w arbitrary: a)
  case Nil
  then show ?case by simp
next
  case (Cons e w)
  from Cons.prems have "neighborId a e \<in> node_id ` set ns"
    using neighborId_listed by auto
  with Cons show ?case by fastforce
qed

lemma neighborId_connects:
  "source e = c \<or> target e = c \<Longrightarrow> connects e c (neighborId c e)"
  by (auto simp: connects_def neighborId_def)

lemma connects_neighborId:
  "connects e p n \<Longrightarrow> neighborId p e = n \<and> (source e = p \<or> target e = p)"
  by (auto simp: connects_def neighborId_def)

lemma at_most_Fin [simp]: "at_most (Fin d) x \<longleftrightarrow> d \<le> x"
  by (simp add: at_most_def)

lemma at_mostE: "at_most a x \<Longrightarrow> \<exists>d. a = Fin d \<and> d \<le> x"
  by (cases a) (auto simp: at_most_def)

lemma at_most_mono: "at_most a x \<Longrightarrow> x \<le> y \<Longrightarrow> at_most a y"
  by (cases a) (auto simp: at_most_def)

lemma tight_mono:
  "(\<And>x y. at_most (g x) y \<Longrightarrow> at_most (g' x) y) \<Longrightarrow> tight g ns a acc w \<Longrightarrow> tight g' ns a acc w"
  by (induction w arbitrary: a acc) auto

lemma tight_snoc:
  "tight g ns a acc (w @ [e]) \<longleftrightarrow>
     tight g ns a acc w
     \<and> at_most (g (neighborId (walk_end a w) e))
         (acc + walk_cost ns a w + static_weight ns (walk_end a w) e)"
  by (induction w arbitrary: a acc) (auto simp: add.assoc)

lemma tight_nodes:
  "plain_graph ns es \<Longrightarrow> is_walk es a w \<Longrightarrow> tight g ns a acc w \<Longrightarrow> x \<in> set (walk_nodes a w)
   \<Longrightarrow> at_most (g x) (acc + walk_cost ns a w)"
proof (induction w arbitrary: a acc)
  case Nil
  then show ?case by simp
next
  case (Cons e w)
  have p: "0 < static_weight ns a e" using Cons.prems static_weight_pos by auto
  have n: "0 \<le> walk_cost ns (neighborId a e) w" using Cons.prems walk_cost_nonneg by auto
  show ?case
  proof (cases "x = a")
    case True
    with Cons.prems(3) have "at_most (g x) acc" by simp
    then show ?thesis using p n by (auto intro: at_most_mono)
  next
    case False
    with Cons.prems have "x \<in> set (walk_nodes (neighborId a e) w)" by simp
    from Cons.IH[OF Cons.prems(1) _ _ this, of "acc + static_weight ns a e"] Cons.prems
    show ?thesis by (simp add: add.assoc)
  qed
qed

lemma simple_walk_candidate:
  assumes "plain_graph ns es" and "is_walk es s w" and "distinct (walk_nodes s w)"
  shows "walk_cost ns s w \<in> candidates ns es s"
proof -
  have "set w \<subseteq> set es" using assms(2) by (induction w arbitrary: s) auto
  moreover have "length w \<le> length ns"
  proof -
    have "card (set (walk_nodes s w)) \<le> card (insert s (node_id ` set ns))"
      using walk_nodes_listed[OF assms(1,2)] by (intro card_mono) auto
    also have "\<dots> \<le> Suc (card (node_id ` set ns))" by (simp add: card_insert_if)
    also have "\<dots> \<le> Suc (length ns)"
      using card_image_le[of "set ns" node_id] card_length[of ns] by simp
    finally show ?thesis using distinct_card[OF assms(3)] by (simp add: length_walk_nodes)
  qed
  ultimately show ?thesis by (auto simp: candidates_def)
qed

lemma finite_candidates: "finite (candidates ns es s)"
  unfolding candidates_def
  using finite_lists_length_le[of "set es" "length ns"] by simp

subsection \<open>One relaxation\<close>

lemma edge_cost_static:
  assumes pg: "plain_graph ns es" and e: "e \<in> set es" and inc: "source e = c \<or> target e = c"
    and prev: "\<And>p. prev = Some p \<Longrightarrow> \<exists>q. p = NodeId q \<and> (\<exists>e'\<in>set es. connects e' q c)"
  shows "edge_cost ns prev c e = static_weight ns c e"
proof -
  have lim: "60 \<le> limit e" using pg e by (auto simp: plain_graph_def)
  have turn: "(case prev of
                 Some prevId \<Rightarrow>
                   if truthy prevId
                      \<and> direction_from ns prevId c \<noteq> getDirection ns c (neighborId c e)
                   then 0.15 else 0
               | None \<Rightarrow> 0) = (0::real)"
  proof (cases prev)
    case None
    then show ?thesis by simp
  next
    case (Some p)
    from prev[OF Some] obtain q e' where q: "p = NodeId q" and "e' \<in> set es" "connects e' q c"
      by blast
    moreover have "connects e c (neighborId c e)" using inc by (rule neighborId_connects)
    ultimately have "getDirection ns q c = getDirection ns c (neighborId c e)"
      using pg e unfolding plain_graph_def by blast
    with Some q show ?thesis by simp
  qed
  have light: "(case find_node ns (neighborId c e) of
                  Some targetNode \<Rightarrow> if lightStatus targetNode = Some Red then 0.5 else 0
                | None \<Rightarrow> 0) = (if red_node ns (neighborId c e) then 0.5 else (0::real))"
    by (simp add: red_node_def split: option.splits)
  show ?thesis
    unfolding edge_cost_def static_weight_def Let_def turn light using lim by simp
qed

lemma relax_unchanged:
  assumes "gScore st c = Fin dc"
    and "\<not> (gScore st (neighborId c e) = PInf
            \<or> (\<exists>d. gScore st (neighborId c e) = Fin d
                   \<and> dc + edge_cost ns (js_get (cameFrom st) c) c e < d))"
  shows "relax ns goal c st e = st"
  using assms by (cases "gScore st (neighborId c e)") (auto simp: relax_def Let_def)

lemma relax_changed:
  assumes "gScore st c = Fin dc"
    and "gScore st (neighborId c e) = PInf
          \<or> (\<exists>d. gScore st (neighborId c e) = Fin d
                 \<and> dc + edge_cost ns (js_get (cameFrom st) c) c e < d)"
    and "t = dc + edge_cost ns (js_get (cameFrom st) c) c e" and "nb = neighborId c e"
    and "gScore st ''__proto__'' = NaN"
  shows "cameFrom (relax ns goal c st e) = (cameFrom st)(nb \<mapsto> c)"
    and "gScore (relax ns goal c st e) = (gScore st)(nb := Fin t)"
    and "fScore (relax ns goal c st e) = (fScore st)(nb := Fin (t + heuristic ns goal nb))"
    and "openSet (relax ns goal c st e) = add_open nb (openSet st)"
  using assms by (auto simp: relax_def Let_def js_set_def)

lemma lowers_refl: "lowers g g"
  by (simp add: lowers_def)

lemma lowers_trans: "lowers g g' \<Longrightarrow> lowers g' g'' \<Longrightarrow> lowers g g''"
  by (simp add: lowers_def)

lemma lowersD: "lowers g g' \<Longrightarrow> at_most (g x) y \<Longrightarrow> at_most (g' x) y"
  by (simp add: lowers_def)

lemma lowers_update:
  assumes "g nb = PInf \<or> (\<exists>d. g nb = Fin d \<and> t < d)"
  shows "lowers g (g(nb := Fin t))"
  using assms by (auto simp: lowers_def at_most_def)

lemma witnessed_nonneg:
  "plain_graph ns es \<Longrightarrow> witnessed ns es s g v d \<Longrightarrow> 0 \<le> d"
  using walk_cost_nonneg by (auto simp: witnessed_def)

lemma witnessed_lowers:
  "lowers g g' \<Longrightarrow> witnessed ns es s g v d \<Longrightarrow> witnessed ns es s g' v d"
  unfolding witnessed_def using tight_mono[of g g'] lowersD[of g g'] by blast

lemma witnessed_candidate:
  "plain_graph ns es \<Longrightarrow> witnessed ns es s g v d \<Longrightarrow> d \<in> candidates ns es s"
  using simple_walk_candidate by (auto simp: witnessed_def)

lemma witnessed_extend:
  assumes pg: "plain_graph ns es" and wc: "witnessed ns es s g c dc"
    and e: "e \<in> set es" and inc: "source e = c \<or> target e = c"
    and succ: "g (neighborId c e) = PInf \<or> (\<exists>d. g (neighborId c e) = Fin d \<and> dc + static_weight ns c e < d)"
  shows "witnessed ns es s (g(neighborId c e := Fin (dc + static_weight ns c e))) (neighborId c e)
           (dc + static_weight ns c e)"
proof -
  let ?nb = "neighborId c e" and ?t = "dc + static_weight ns c e"
  let ?g = "g(?nb := Fin ?t)"
  from wc obtain w where w: "is_walk es s w" "walk_end s w = c" "walk_cost ns s w = dc"
    "distinct (walk_nodes s w)" "tight g ns s 0 w"
    by (auto simp: witnessed_def)
  have sw: "0 < static_weight ns c e" using pg e by (rule static_weight_pos)
  have notin: "?nb \<notin> set (walk_nodes s w)"
  proof
    assume "?nb \<in> set (walk_nodes s w)"
    from tight_nodes[OF pg w(1) w(5) this] w(3) have "at_most (g ?nb) dc" by simp
    then obtain d0 where "g ?nb = Fin d0" "d0 \<le> dc" by (auto dest: at_mostE)
    with succ sw show False by auto
  qed
  have low: "lowers g ?g" using succ by (rule lowers_update)
  have 1: "is_walk es s (w @ [e])" using w e inc by (simp add: is_walk_append)
  have 2: "walk_end s (w @ [e]) = ?nb" using w by (simp add: walk_end_append)
  have 3: "walk_cost ns s (w @ [e]) = ?t" using w by (simp add: walk_cost_append)
  have 4: "distinct (walk_nodes s (w @ [e]))" using w notin by (simp add: walk_nodes_snoc)
  have "tight ?g ns s 0 w" using tight_mono[of g ?g, OF lowersD[OF low] w(5)] .
  then have 5: "tight ?g ns s 0 (w @ [e])" using w by (simp add: tight_snoc)
  from 1 2 3 4 5 show ?thesis unfolding witnessed_def by blast
qed

lemma set_add_open [simp]: "set (add_open x os) = insert x (set os)"
  by (auto simp: add_open_def)

lemma rank_decrease:
  assumes "finite C" and "t \<in> C" and "a = PInf \<or> (\<exists>d. a = Fin d \<and> t < d)"
  shows "rank C (Fin t) < rank C a"
proof -
  have le: "card {c \<in> C. c < t} \<le> card C" using assms(1) by (intro card_mono) auto
  from assms(3) show ?thesis
  proof
    assume "a = PInf"
    with le show ?thesis by (simp add: rank_def)
  next
    assume "\<exists>d. a = Fin d \<and> t < d"
    then obtain d where d: "a = Fin d" "t < d" by blast
    have "{c \<in> C. c < t} \<subset> {c \<in> C. c < d}" using d(2) assms(2) by auto
    then have "card {c \<in> C. c < t} < card {c \<in> C. c < d}"
      using assms(1) by (intro psubset_card_mono) auto
    with d show ?thesis by (simp add: rank_def)
  qed
qed

lemma potential_decrease:
  assumes "gScore st' = (gScore st)(nb := Fin t)" and "nb \<in> insert s (node_id ` set ns)"
    and "rank (candidates ns es s) (Fin t) < rank (candidates ns es s) (gScore st nb)"
  shows "potential ns es s st' < potential ns es s st"
  unfolding potential_def
proof (rule sum_strict_mono_ex1)
  show "finite (insert s (node_id ` set ns))" by simp
  show "\<forall>v\<in>insert s (node_id ` set ns).
          rank (candidates ns es s) (gScore st' v) \<le> rank (candidates ns es s) (gScore st v)"
    using assms(1,3) by auto
  show "\<exists>v\<in>insert s (node_id ` set ns).
          rank (candidates ns es s) (gScore st' v) < rank (candidates ns es s) (gScore st v)"
    using assms by (intro bexI[of _ nb]) auto
qed

lemma relax_step:
  assumes pg: "plain_graph ns es" and mid: "mid_inv ns es s goal c dc st"
    and e: "e \<in> set es" and inc: "source e = c \<or> target e = c"
  shows "mid_inv ns es s goal c dc (relax ns goal c st e)
       \<and> at_most (gScore (relax ns goal c st e) (neighborId c e)) (dc + static_weight ns c e)
       \<and> lowers (gScore st) (gScore (relax ns goal c st e))
       \<and> (relax ns goal c st e = st \<or> potential ns es s (relax ns goal c st e) < potential ns es s st)"
proof -
  let ?nb = "neighborId c e" and ?sw = "static_weight ns c e"
  let ?t = "dc + ?sw"
  let ?st = "relax ns goal c st e"
  from mid have inv: "search_inv ns es s goal st" and gc: "gScore st c = Fin dc"
    and cno: "c \<notin> set (openSet st)" and croot: "c = s \<or> c \<in> dom (cameFrom st)"
    and closed: "\<And>u. u \<noteq> c \<Longrightarrow> closed_at ns es st u"
    by (auto simp: mid_inv_def)
  from inv have tree: "tree_inv s es st" and gs: "gScore st s = Fin 0"
    and listed: "\<And>v. v \<in> node_id ` set ns \<Longrightarrow> gScore st v = PInf \<or> (\<exists>d. gScore st v = Fin d)"
    and opn: "\<And>v. v \<in> set (openSet st) \<Longrightarrow> \<exists>d. gScore st v = Fin d"
    and fs: "\<And>v d. gScore st v = Fin d \<Longrightarrow> fScore st v = Fin (d + heuristic ns goal v)"
    and gl: "(\<exists>d. gScore st goal = Fin d) \<Longrightarrow> goal \<in> set (openSet st)"
    and links: "\<And>n p. cameFrom st n = Some p \<Longrightarrow>
           \<exists>e\<in>set es. connects e p n
              \<and> (\<exists>dp dn. gScore st p = Fin dp \<and> gScore st n = Fin dn
                    \<and> dp + static_weight ns p e \<le> dn)"
    and wit: "\<And>v d. gScore st v = Fin d \<Longrightarrow> witnessed ns es s (gScore st) v d"
    unfolding search_inv_def by blast+
  from tree have plain: "s \<notin> set proto_keys" and unset: "gScore st ''__proto__'' = NaN"
    by (auto simp: tree_inv_def)
  have cost: "edge_cost ns (js_get (cameFrom st) c) c e = ?sw"
  proof (rule edge_cost_static[OF pg e inc])
    fix p assume p: "js_get (cameFrom st) c = Some p"
    show "\<exists>q. p = NodeId q \<and> (\<exists>e'\<in>set es. connects e' q c)"
    proof (cases "cameFrom st c")
      case None
      with croot plain have "c \<notin> set proto_keys" by auto
      with None p show ?thesis by (simp add: js_get_def)
    next
      case (Some q)
      with tree have "\<exists>e'\<in>set es. connects e' q c" by (auto simp: tree_inv_def)
      with Some p show ?thesis by (auto simp: js_get_def)
    qed
  qed
  have sw: "0 < ?sw" using pg e by (rule static_weight_pos)
  have dc0: "0 \<le> dc" using witnessed_nonneg[OF pg wit[OF gc]] .
  have nbl: "?nb \<in> node_id ` set ns" using pg e by (rule neighborId_listed)
  show ?thesis
  proof (cases "gScore st ?nb = PInf \<or> (\<exists>d. gScore st ?nb = Fin d \<and> ?t < d)")
    case False
    then have same: "?st = st" using relax_unchanged[OF gc, of e ns goal] cost by simp
    from False listed[OF nbl] have "at_most (gScore st ?nb) ?t" by auto
    with same mid show ?thesis by (simp add: lowers_refl)
  next
    case True
    have cf': "cameFrom ?st = (cameFrom st)(?nb \<mapsto> c)"
      and g': "gScore ?st = (gScore st)(?nb := Fin ?t)"
      and f': "fScore ?st = (fScore st)(?nb := Fin (?t + heuristic ns goal ?nb))"
      and o': "openSet ?st = add_open ?nb (openSet st)"
      using relax_changed[OF gc _ refl refl unset, of e ns goal] True cost by simp_all
    have nbc: "?nb \<noteq> c" using True gc sw by auto
    have nbs: "?nb \<noteq> s" using True gs sw dc0 by auto
    have low: "lowers (gScore st) (gScore ?st)" unfolding g' using True by (rule lowers_update)
    have t1: "tree_inv s es ?st" and croot': "c = s \<or> c \<in> dom (cameFrom ?st)"
      using relax_tree_inv[OF tree e inc croot, of ns goal] croot by auto
    have t2: "gScore ?st s = Fin 0" using gs nbs by (simp add: g')
    have t3: "\<forall>v\<in>node_id ` set ns. gScore ?st v = PInf \<or> (\<exists>d. gScore ?st v = Fin d)"
      using listed by (auto simp: g')
    have t4: "\<forall>v\<in>set (openSet ?st). \<exists>d. gScore ?st v = Fin d"
      using opn by (auto simp: g' o')
    have t5: "\<forall>v d. gScore ?st v = Fin d \<longrightarrow> fScore ?st v = Fin (d + heuristic ns goal v)"
      using fs by (auto simp: g' f')
    have t6: "(\<exists>d. gScore ?st goal = Fin d) \<longrightarrow> goal \<in> set (openSet ?st)"
      using gl by (auto simp: g' o')
    have t7: "\<forall>n p. cameFrom ?st n = Some p \<longrightarrow>
           (\<exists>e\<in>set es. connects e p n
              \<and> (\<exists>dp dn. gScore ?st p = Fin dp \<and> gScore ?st n = Fin dn
                    \<and> dp + static_weight ns p e \<le> dn))"
    proof (intro allI impI)
      fix n p assume np: "cameFrom ?st n = Some p"
      show "\<exists>e\<in>set es. connects e p n
              \<and> (\<exists>dp dn. gScore ?st p = Fin dp \<and> gScore ?st n = Fin dn
                    \<and> dp + static_weight ns p e \<le> dn)"
      proof (cases "n = ?nb")
        case True
        with np have "p = c" by (simp add: cf')
        moreover have "connects e c ?nb" using inc by (rule neighborId_connects)
        ultimately show ?thesis using e True gc nbc by (intro bexI[of _ e]) (auto simp: g')
      next
        case False
        with np have "cameFrom st n = Some p" by (simp add: cf')
        from links[OF this] obtain e0 dp dn where e0: "e0 \<in> set es" "connects e0 p n"
          "gScore st p = Fin dp" "gScore st n = Fin dn" "dp + static_weight ns p e0 \<le> dn"
          by blast
        have "at_most (gScore st p) dp" using e0 by simp
        from lowersD[OF low this] obtain dp' where "gScore ?st p = Fin dp'" "dp' \<le> dp"
          by (auto dest: at_mostE)
        with e0 False show ?thesis by (intro bexI[of _ e0]) (auto simp: g')
      qed
    qed
    have t8: "\<forall>v d. gScore ?st v = Fin d \<longrightarrow> witnessed ns es s (gScore ?st) v d"
    proof (intro allI impI)
      fix v d assume vd: "gScore ?st v = Fin d"
      show "witnessed ns es s (gScore ?st) v d"
      proof (cases "v = ?nb")
        case True
        with vd have "d = ?t" by (simp add: g')
        with True witnessed_extend[OF pg wit[OF gc] e inc] \<open>gScore st ?nb = PInf \<or> _\<close>
        show ?thesis by (simp add: g')
      next
        case False
        with vd have "gScore st v = Fin d" by (simp add: g')
        from witnessed_lowers[OF low wit[OF this]] show ?thesis .
      qed
    qed
    have inv': "search_inv ns es s goal ?st"
      unfolding search_inv_def using t1 t2 t3 t4 t5 t6 t7 t8 by blast
    have cno': "c \<notin> set (openSet ?st)" using cno nbc by (auto simp: o')
    have closed': "\<forall>u. u \<noteq> c \<longrightarrow> closed_at ns es ?st u"
    proof (intro allI impI)
      fix u assume uc: "u \<noteq> c"
      show "closed_at ns es ?st u"
        unfolding closed_at_def
      proof (intro allI impI ballI)
        fix d e0
        assume a: "gScore ?st u = Fin d \<and> u \<notin> set (openSet ?st)" and e0: "e0 \<in> set es"
          and i0: "source e0 = u \<or> target e0 = u"
        then have unb: "u \<noteq> ?nb" by (auto simp: o')
        with a have "gScore st u = Fin d \<and> u \<notin> set (openSet st)"
          by (auto simp: g' o' split: if_splits)
        with closed[OF uc] e0 i0
        have "at_most (gScore st (neighborId u e0)) (d + static_weight ns u e0)"
          unfolding closed_at_def by blast
        from lowersD[OF low this]
        show "at_most (gScore ?st (neighborId u e0)) (d + static_weight ns u e0)" .
      qed
    qed
    have gc': "gScore ?st c = Fin dc" using gc nbc by (simp add: g')
    have mid': "mid_inv ns es s goal c dc ?st"
      unfolding mid_inv_def using inv' gc' cno' croot' closed' by blast
    have am: "at_most (gScore ?st ?nb) ?t" by (simp add: g')
    have "witnessed ns es s (gScore ?st) ?nb ?t" using t8 by (simp add: g')
    then have "?t \<in> candidates ns es s" using witnessed_candidate[OF pg] by blast
    then have "rank (candidates ns es s) (Fin ?t) < rank (candidates ns es s) (gScore st ?nb)"
      using rank_decrease[OF finite_candidates] True by blast
    then have pot: "potential ns es s ?st < potential ns es s st"
      using potential_decrease[OF g', of s ns es] nbl by blast
    from mid' am low pot show ?thesis by blast
  qed
qed

subsection \<open>One expansion\<close>

lemma fold_relax:
  assumes pg: "plain_graph ns es"
  shows "mid_inv ns es s goal c dc st \<Longrightarrow> set nbs \<subseteq> set es
     \<Longrightarrow> \<forall>e\<in>set nbs. source e = c \<or> target e = c
     \<Longrightarrow> mid_inv ns es s goal c dc (foldl (relax ns goal c) st nbs)
       \<and> (\<forall>e\<in>set nbs. at_most (gScore (foldl (relax ns goal c) st nbs) (neighborId c e))
                          (dc + static_weight ns c e))
       \<and> lowers (gScore st) (gScore (foldl (relax ns goal c) st nbs))
       \<and> (foldl (relax ns goal c) st nbs = st
          \<or> potential ns es s (foldl (relax ns goal c) st nbs) < potential ns es s st)"
proof (induction nbs arbitrary: st)
  case Nil
  then show ?case by (simp add: lowers_refl)
next
  case (Cons e nbs)
  let ?st1 = "relax ns goal c st e"
  let ?st' = "foldl (relax ns goal c) ?st1 nbs"
  have e: "e \<in> set es" and inc: "source e = c \<or> target e = c" using Cons.prems by auto
  from relax_step[OF pg Cons.prems(1) e inc]
  have m1: "mid_inv ns es s goal c dc ?st1"
    and a1: "at_most (gScore ?st1 (neighborId c e)) (dc + static_weight ns c e)"
    and l1: "lowers (gScore st) (gScore ?st1)"
    and p1: "?st1 = st \<or> potential ns es s ?st1 < potential ns es s st"
    by blast+
  from Cons.IH[OF m1] Cons.prems
  have m2: "mid_inv ns es s goal c dc ?st'"
    and a2: "\<forall>e\<in>set nbs. at_most (gScore ?st' (neighborId c e)) (dc + static_weight ns c e)"
    and l2: "lowers (gScore ?st1) (gScore ?st')"
    and p2: "?st' = ?st1 \<or> potential ns es s ?st' < potential ns es s ?st1"
    by auto
  have a: "at_most (gScore ?st' (neighborId c e)) (dc + static_weight ns c e)"
    using lowersD[OF l2 a1] .
  have l: "lowers (gScore st) (gScore ?st')" using lowers_trans[OF l1 l2] .
  have p: "?st' = st \<or> potential ns es s ?st' < potential ns es s st"
    using p1 p2 by auto
  from m2 a a2 l p show ?case by simp
qed

lemma expand:
  assumes pg: "plain_graph ns es" and head: "head_inv ns es s goal st"
    and cin: "c \<in> set (openSet st)" and cg: "c \<noteq> goal"
    and st': "st' = foldl (relax ns goal c) (st\<lparr>openSet := removeAll c (openSet st)\<rparr>) (neighbors es c)"
  shows "head_inv ns es s goal st'
       \<and> (potential ns es s st' < potential ns es s st
          \<or> (potential ns es s st' = potential ns es s st
              \<and> length (openSet st') < length (openSet st)))"
proof -
  let ?st1 = "st\<lparr>openSet := removeAll c (openSet st)\<rparr>"
  from head have inv: "search_inv ns es s goal st" and closed: "\<And>u. closed_at ns es st u"
    by (auto simp: head_inv_def)
  from inv cin obtain dc where dc: "gScore st c = Fin dc" unfolding search_inv_def by blast
  have inv1: "search_inv ns es s goal ?st1"
    using inv cg unfolding search_inv_def tree_inv_def by auto
  have croot: "c = s \<or> c \<in> dom (cameFrom st)"
    using inv cin unfolding search_inv_def tree_inv_def by blast
  have closed1: "\<forall>u. u \<noteq> c \<longrightarrow> closed_at ns es ?st1 u"
    using closed unfolding closed_at_def by auto
  have mid1: "mid_inv ns es s goal c dc ?st1"
    unfolding mid_inv_def using inv1 dc croot closed1 by simp
  have sub: "set (neighbors es c) \<subseteq> set es"
    and inc: "\<forall>e\<in>set (neighbors es c). source e = c \<or> target e = c"
    by (auto simp: neighbors_def)
  from fold_relax[OF pg mid1 sub inc] st'
  have mid': "mid_inv ns es s goal c dc st'"
    and rel: "\<forall>e\<in>set (neighbors es c). at_most (gScore st' (neighborId c e)) (dc + static_weight ns c e)"
    and pot: "st' = ?st1 \<or> potential ns es s st' < potential ns es s ?st1"
    by auto
  have "closed_at ns es st' c"
    unfolding closed_at_def
  proof (intro allI impI ballI)
    fix d e assume a: "gScore st' c = Fin d \<and> c \<notin> set (openSet st')" and e: "e \<in> set es"
      and i: "source e = c \<or> target e = c"
    from mid' a have "d = dc" by (simp add: mid_inv_def)
    moreover from e i have "e \<in> set (neighbors es c)" by (simp add: neighbors_def)
    ultimately show "at_most (gScore st' (neighborId c e)) (d + static_weight ns c e)"
      using rel by simp
  qed
  with mid' have h': "head_inv ns es s goal st'"
    unfolding head_inv_def mid_inv_def by metis
  have p1: "potential ns es s ?st1 = potential ns es s st" by (simp add: potential_def)
  have l1: "length (openSet ?st1) < length (openSet st)"
    using cin by (simp add: length_removeAll_less)
  from pot p1 l1 have "potential ns es s st' < potential ns es s st
          \<or> (potential ns es s st' = potential ns es s st
              \<and> length (openSet st') < length (openSet st))" by auto
  with h' show ?thesis by simp
qed

lemma walk_bound:
  assumes pg: "plain_graph ns es" and head: "head_inv ns es s goal st"
  shows "is_walk es s w \<Longrightarrow>
     \<exists>w1 w2. w = w1 @ w2 \<and> at_most (gScore st (walk_end s w1)) (walk_cost ns s w1)
        \<and> (walk_end s w1 \<in> set (openSet st) \<or> w2 = [])"
proof (induction w rule: rev_induct)
  case Nil
  from head have "gScore st s = Fin 0" by (simp add: head_inv_def search_inv_def)
  then show ?case by simp
next
  case (snoc e w)
  from snoc.prems have w: "is_walk es s w" and e: "e \<in> set es"
    and inc: "source e = walk_end s w \<or> target e = walk_end s w"
    by (auto simp: is_walk_append)
  from snoc.IH[OF w] obtain w1 w2 where d: "w = w1 @ w2"
    and am: "at_most (gScore st (walk_end s w1)) (walk_cost ns s w1)"
    and alt: "walk_end s w1 \<in> set (openSet st) \<or> w2 = []" by blast
  show ?case
  proof (cases "walk_end s w1 \<in> set (openSet st)")
    case True
    with d am show ?thesis by (intro exI[of _ w1] exI[of _ "w2 @ [e]"]) simp
  next
    case False
    with alt d have w2: "w2 = []" "w1 = w" by auto
    from am obtain du where du: "gScore st (walk_end s w) = Fin du" "du \<le> walk_cost ns s w"
      unfolding w2 by (auto dest: at_mostE)
    from head have "closed_at ns es st (walk_end s w)" by (simp add: head_inv_def)
    with du False e inc w2
    have "at_most (gScore st (neighborId (walk_end s w) e)) (du + static_weight ns (walk_end s w) e)"
      unfolding closed_at_def by blast
    then have "at_most (gScore st (walk_end s (w @ [e]))) (walk_cost ns s (w @ [e]))"
      using du(2) by (auto simp: walk_end_append walk_cost_append intro: at_most_mono)
    then show ?thesis by (intro exI[of _ "w @ [e]"] exI[of _ "[]"]) simp
  qed
qed

subsection \<open>The goal is taken from the open set\<close>

lemma heuristic_nonneg: "0 \<le> heuristic ns goal v"
  by (simp add: heuristic_def Let_def split: option.splits)

lemma lowest_min:
  "\<forall>x\<in>set (a # bs). \<exists>r. f x = Fin r \<Longrightarrow>
   \<exists>rm. f (lowest f a bs) = Fin rm \<and> lowest f a bs \<in> set (a # bs)
       \<and> (\<forall>x\<in>set (a # bs). \<forall>r. f x = Fin r \<longrightarrow> rm \<le> r)"
  unfolding lowest_def
proof (induction bs arbitrary: a)
  case Nil
  then show ?case by auto
next
  case (Cons b bs)
  let ?m = "if jlt (f a) (f b) then a else b"
  from Cons.prems obtain ra rb where ra: "f a = Fin ra" and rb: "f b = Fin rb" by auto
  have "\<forall>x\<in>set (?m # bs). \<exists>r. f x = Fin r" using Cons.prems by auto
  from Cons.IH[OF this] obtain rm where
    rm: "f (foldl (\<lambda>a b. if jlt (f a) (f b) then a else b) ?m bs) = Fin rm"
    and mem: "foldl (\<lambda>a b. if jlt (f a) (f b) then a else b) ?m bs \<in> set (?m # bs)"
    and least: "\<forall>x\<in>set (?m # bs). \<forall>r. f x = Fin r \<longrightarrow> rm \<le> r"
    by blast
  have m: "\<exists>r. f ?m = Fin r \<and> r \<le> ra \<and> r \<le> rb" using ra rb by auto
  with least have "rm \<le> ra" "rm \<le> rb" by fastforce+
  with least ra rb have "\<forall>x\<in>set (a # b # bs). \<forall>r. f x = Fin r \<longrightarrow> rm \<le> r" by auto
  moreover from mem have "foldl (\<lambda>a b. if jlt (f a) (f b) then a else b) ?m bs \<in> set (a # b # bs)"
    by auto
  ultimately show ?case using rm by simp
qed

lemma chain_exists:
  assumes pg: "plain_graph ns es" and inv: "search_inv ns es s goal st"
  shows "gScore st c = Fin d \<Longrightarrow> \<exists>as. walk_up (cameFrom st) c as"
proof (induction "card {v \<in> node_id ` set ns. \<exists>d'. gScore st v = Fin d' \<and> d' < d}"
    arbitrary: c d rule: less_induct)
  case less
  show ?case
  proof (cases "cameFrom st c")
    case None
    then show ?thesis by (intro exI[of _ "[]"]) simp
  next
    case (Some p)
    with inv obtain e dp dn where e: "e \<in> set es" "connects e p c"
      "gScore st p = Fin dp" "gScore st c = Fin dn" "dp + static_weight ns p e \<le> dn"
      unfolding search_inv_def by blast
    have "0 < static_weight ns p e" using pg e(1) by (rule static_weight_pos)
    with e less.prems have lt: "dp < d" by simp
    have "p \<in> node_id ` set ns" using pg e(1,2) by (auto simp: plain_graph_def connects_def)
    then have pin: "p \<in> {v \<in> node_id ` set ns. \<exists>d'. gScore st v = Fin d' \<and> d' < d}"
      and pout: "p \<notin> {v \<in> node_id ` set ns. \<exists>d'. gScore st v = Fin d' \<and> d' < dp}"
      using e(3) lt by auto
    have "{v \<in> node_id ` set ns. \<exists>d'. gScore st v = Fin d' \<and> d' < dp}
        \<subseteq> {v \<in> node_id ` set ns. \<exists>d'. gScore st v = Fin d' \<and> d' < d}" using lt by auto
    with pin pout have "{v \<in> node_id ` set ns. \<exists>d'. gScore st v = Fin d' \<and> d' < dp}
        \<subset> {v \<in> node_id ` set ns. \<exists>d'. gScore st v = Fin d' \<and> d' < d}" by blast
    then have "card {v \<in> node_id ` set ns. \<exists>d'. gScore st v = Fin d' \<and> d' < dp}
        < card {v \<in> node_id ` set ns. \<exists>d'. gScore st v = Fin d' \<and> d' < d}"
      by (intro psubset_card_mono) auto
    from less.hyps[OF this e(3)] obtain as where "walk_up (cameFrom st) p as" by blast
    with Some show ?thesis by (intro exI[of _ "p # as"]) simp
  qed
qed

lemma chain_walk:
  assumes inv: "search_inv ns es s goal st"
  shows "walk_up (cameFrom st) c as \<Longrightarrow> gScore st c = Fin dc \<Longrightarrow>
     \<exists>w dr. is_walk es (last (c # as)) w \<and> walk_nodes (last (c # as)) w = rev as @ [c]
          \<and> walk_end (last (c # as)) w = c \<and> gScore st (last (c # as)) = Fin dr
          \<and> dr + walk_cost ns (last (c # as)) w \<le> dc"
proof (induction as arbitrary: c dc)
  case Nil
  then show ?case by (intro exI[of _ "[]"] exI[of _ dc]) simp
next
  case (Cons a as)
  from Cons.prems have ca: "cameFrom st c = Some a" and up: "walk_up (cameFrom st) a as" by auto
  from ca inv obtain e da dn where e: "e \<in> set es" "connects e a c"
    "gScore st a = Fin da" "gScore st c = Fin dn" "da + static_weight ns a e \<le> dn"
    unfolding search_inv_def by blast
  let ?r = "last (a # as)"
  from Cons.IH[OF up e(3)] obtain w dr where w: "is_walk es ?r w"
    "walk_nodes ?r w = rev as @ [a]" "walk_end ?r w = a" "gScore st ?r = Fin dr"
    "dr + walk_cost ns ?r w \<le> da" by blast
  from connects_neighborId[OF e(2)] have nb: "neighborId a e = c" "source e = a \<or> target e = a"
    by auto
  have 1: "is_walk es ?r (w @ [e])" using w e(1) nb by (simp add: is_walk_append)
  have 2: "walk_nodes ?r (w @ [e]) = rev (a # as) @ [c]" using w nb by (simp add: walk_nodes_snoc)
  have 3: "walk_end ?r (w @ [e]) = c" using w nb by (simp add: walk_end_append)
  have 4: "dr + walk_cost ns ?r (w @ [e]) \<le> dc"
    using w e(4,5) nb Cons.prems(2) by (simp add: walk_cost_append)
  have "last (c # a # as) = ?r" by simp
  with 1 2 3 4 w(4) show ?case by metis
qed

lemma init_values:
  "''__proto__'' \<notin> node_id ` set ns \<Longrightarrow>
   foldl (\<lambda>g n. js_set g (node_id n) PInf) g0 ns v = (if v \<in> node_id ` set ns then PInf else g0 v)"
  by (induction ns arbitrary: g0) (auto simp: js_set_def)

lemma head_inv_init:
  assumes plain: "s \<notin> set proto_keys" and listed: "''__proto__'' \<notin> node_id ` set ns"
  shows "head_inv ns es s goal (astar_init s goal ns)"
proof -
  let ?st = "astar_init s goal ns"
  from plain have sp: "s \<noteq> ''__proto__''" by (auto simp: proto_keys_def)
  have upd: "js_set h s x = h(s := x)" for h :: "string \<Rightarrow> jsnum" and x
    using sp by (simp add: js_set_def)
  have g: "\<And>v. gScore ?st v = (if v = s then Fin 0 else if v \<in> node_id ` set ns then PInf else NaN)"
    by (simp add: astar_init_def init_values[OF listed] upd)
  have f: "fScore ?st s = Fin (heuristic ns goal s)" by (simp add: astar_init_def upd)
  have o: "openSet ?st = [s]" and c: "cameFrom ?st = Map.empty" by (simp_all add: astar_init_def)
  have "witnessed ns es s (gScore ?st) s 0"
    unfolding witnessed_def by (intro exI[of _ "[]"]) (simp add: g)
  then have "search_inv ns es s goal ?st"
    unfolding search_inv_def tree_inv_def using f plain listed sp by (auto simp: g o c)
  moreover have "\<forall>u. closed_at ns es ?st u"
    unfolding closed_at_def by (auto simp: g o)
  ultimately show ?thesis by (simp add: head_inv_def)
qed

lemma goal_popped:
  assumes pg: "plain_graph ns es" and adm: "admissible ns es goal"
    and head: "head_inv ns es s goal st"
    and os: "openSet st = a # bs" and low: "lowest (fScore st) a bs = goal"
  shows "\<exists>p. reconstruct (cameFrom st) (NodeId goal) [NodeId goal] = Some p
           \<and> optimal_route ns es s goal \<lparr>path = p, time = gScore st goal\<rparr>"
proof -
  from head have inv: "search_inv ns es s goal st" by (simp add: head_inv_def)
  from inv have opn: "\<And>v. v \<in> set (openSet st) \<Longrightarrow> \<exists>d. gScore st v = Fin d"
    and fs: "\<And>v d. gScore st v = Fin d \<Longrightarrow> fScore st v = Fin (d + heuristic ns goal v)"
    and tree: "tree_inv s es st" and gs: "gScore st s = Fin 0"
    unfolding search_inv_def by blast+
  have fin: "\<forall>x\<in>set (a # bs). \<exists>r. fScore st x = Fin r"
    using opn fs os by fastforce
  from lowest_min[OF fin] low obtain rm where rm: "fScore st goal = Fin rm"
    and gin: "goal \<in> set (openSet st)"
    and least: "\<And>x r. x \<in> set (openSet st) \<Longrightarrow> fScore st x = Fin r \<Longrightarrow> rm \<le> r"
    unfolding os by auto
  from opn[OF gin] obtain dg where dg: "gScore st goal = Fin dg" by blast
  with fs rm have rmdg: "rm = dg + heuristic ns goal goal" by fastforce
  have dgrm: "dg \<le> rm" using rmdg heuristic_nonneg[of ns goal goal] by simp
  have best: "dg \<le> walk_cost ns s w'" if w': "is_walk es s w'" "walk_end s w' = goal" for w'
  proof -
    from walk_bound[OF pg head w'(1)] obtain w1 w2 where d: "w' = w1 @ w2"
      and am: "at_most (gScore st (walk_end s w1)) (walk_cost ns s w1)"
      and alt: "walk_end s w1 \<in> set (openSet st) \<or> w2 = []" by blast
    let ?x = "walk_end s w1"
    from am obtain dx where dx: "gScore st ?x = Fin dx" "dx \<le> walk_cost ns s w1"
      by (auto dest: at_mostE)
    have w2: "is_walk es ?x w2" "walk_end ?x w2 = goal"
      using w' d by (auto simp: is_walk_append walk_end_append)
    have c2: "0 \<le> walk_cost ns ?x w2" using walk_cost_nonneg[OF pg w2(1)] .
    show ?thesis
    proof (cases "?x \<in> set (openSet st)")
      case True
      from fs[OF dx(1)] least[OF True] have "rm \<le> dx + heuristic ns goal ?x" by simp
      moreover have "heuristic ns goal ?x \<le> walk_cost ns ?x w2"
        using adm w2 unfolding admissible_def by blast
      ultimately show ?thesis using dgrm dx(2) d by (simp add: walk_cost_append)
    next
      case False
      with alt d have "w1 = w'" by simp
      with dx dg w'(2) show ?thesis by simp
    qed
  qed
  from chain_exists[OF pg inv dg] obtain as where up: "walk_up (cameFrom st) goal as" by blast
  have groot: "goal = s \<or> goal \<in> dom (cameFrom st)"
    using tree gin unfolding tree_inv_def by blast
  have i1: "\<forall>n p. cameFrom st n = Some p \<longrightarrow> p = s \<or> p \<in> dom (cameFrom st)"
    using tree unfolding tree_inv_def by blast
  have root: "last (goal # as) = s" using walk_up_root[OF i1 up groot] .
  with tree have "last (goal # as) \<notin> set proto_keys" by (simp add: tree_inv_def)
  from reconstruct_chain[OF up this, of "[NodeId goal]"]
  have p: "reconstruct (cameFrom st) (NodeId goal) [NodeId goal]
             = Some (map NodeId (rev as) @ [NodeId goal])" .
  from chain_walk[OF inv up dg] root obtain w dr where w: "is_walk es s w"
    "walk_nodes s w = rev as @ [goal]" "walk_end s w = goal" "gScore st s = Fin dr"
    "dr + walk_cost ns s w \<le> dg" by auto
  from w(4,5) gs have "walk_cost ns s w \<le> dg" by simp
  moreover have "dg \<le> walk_cost ns s w" using best[OF w(1,3)] .
  ultimately have cost: "walk_cost ns s w = dg" by simp
  have "optimal_route ns es s goal
          \<lparr>path = map NodeId (rev as) @ [NodeId goal], time = gScore st goal\<rparr>"
    unfolding optimal_route_def using dg w(1,2,3) cost best
    by (intro exI[of _ dg] exI[of _ w]) simp
  with p show ?thesis by blast
qed

lemma open_not_empty:
  assumes pg: "plain_graph ns es" and head: "head_inv ns es s goal st"
    and reach: "is_walk es s w0" "walk_end s w0 = goal"
  shows "openSet st \<noteq> []"
proof
  assume e: "openSet st = []"
  from walk_bound[OF pg head reach(1)] obtain w1 w2 where d: "w0 = w1 @ w2"
    and am: "at_most (gScore st (walk_end s w1)) (walk_cost ns s w1)"
    and alt: "walk_end s w1 \<in> set (openSet st) \<or> w2 = []" by blast
  from alt e d have "w1 = w0" by simp
  with am reach(2) obtain dg where "gScore st goal = Fin dg" by (auto dest: at_mostE)
  with head have "goal \<in> set (openSet st)" unfolding head_inv_def search_inv_def by blast
  with e show False by simp
qed

lemma astar_loop_optimal:
  assumes pg: "plain_graph ns es" and adm: "admissible ns es goal"
    and reach: "is_walk es s w0" "walk_end s w0 = goal"
  shows "head_inv ns es s goal st \<Longrightarrow>
     \<exists>r. astar_loop ns es goal st = Some (Found r) \<and> optimal_route ns es s goal r"
proof (induction st rule: wf_induct_rule[OF wf_inv_image[OF wf_lex_prod[OF wf_less_than wf_less_than]],
      of "\<lambda>st. (potential ns es s st, length (openSet st))"])
  case (1 st)
  from open_not_empty[OF pg 1(2) reach] obtain a bs where os: "openSet st = a # bs"
    by (cases "openSet st") auto
  define c where "c = lowest (fScore st) a bs"
  let ?st' = "foldl (relax ns goal c) (st\<lparr>openSet := removeAll c (openSet st)\<rparr>) (neighbors es c)"
  have unfold: "astar_loop ns es goal st =
      (if c = goal
       then map_option (\<lambda>totalPath. Found \<lparr>path = totalPath, time = gScore st goal\<rparr>)
              (reconstruct (cameFrom st) (NodeId c) [NodeId c])
       else astar_loop ns es goal ?st')"
    by (subst astar_loop.simps) (simp add: os c_def Let_def)
  show ?case
  proof (cases "c = goal")
    case True
    from goal_popped[OF pg adm 1(2) os] True c_def obtain p where
      "reconstruct (cameFrom st) (NodeId goal) [NodeId goal] = Some p"
      "optimal_route ns es s goal \<lparr>path = p, time = gScore st goal\<rparr>" by auto
    with unfold True show ?thesis by simp
  next
    case False
    have cin: "c \<in> set (openSet st)" using lowest_mem[of "fScore st" a bs] by (simp add: os c_def)
    from expand[OF pg 1(2) cin False refl]
    have h': "head_inv ns es s goal ?st'"
      and less: "potential ns es s ?st' < potential ns es s st
          \<or> (potential ns es s ?st' = potential ns es s st
              \<and> length (openSet ?st') < length (openSet st))" by blast+
    from less have "(?st', st) \<in> inv_image (less_than <*lex*> less_than)
        (\<lambda>st. (potential ns es s st, length (openSet st)))" by auto
    from 1(1)[OF this h'] unfold False show ?thesis by simp
  qed
qed

lemma consistent_admissible:
  assumes pg: "plain_graph ns es" and con: "consistent ns es goal"
  shows "admissible ns es goal"
  unfolding admissible_def
proof (intro allI impI)
  fix v w assume "is_walk es v w \<and> walk_end v w = goal"
  then show "heuristic ns goal v \<le> walk_cost ns v w"
  proof (induction w arbitrary: v)
    case Nil
    then have "v = goal" by simp
    then show ?case by (simp add: heuristic_def Let_def split: option.splits)
  next
    case (Cons e w)
    then have e: "e \<in> set es" "source e = v \<or> target e = v"
      and rest: "is_walk es (neighborId v e) w \<and> walk_end (neighborId v e) w = goal" by auto
    from con e have "heuristic ns goal v \<le> static_weight ns v e + heuristic ns goal (neighborId v e)"
      unfolding consistent_def neighborId_def
      using static_weight_pos[OF pg e(1), of v] by (auto split: if_splits)
    with Cons.IH[OF rest] show ?case by simp
  qed
qed

section \<open>The reference algorithm computes the least cost of a walk\<close>

lemma closest_None: "closest tent vs = None \<longleftrightarrow> (\<forall>v\<in>set vs. tent v = None)"
  by (induction vs) (auto split: option.splits)

lemma closest_Some:
  "closest tent vs = Some (u, du) \<Longrightarrow>
   u \<in> set vs \<and> tent u = Some du \<and> (\<forall>x\<in>set vs. \<forall>dx. tent x = Some dx \<longrightarrow> du \<le> dx)"
proof (induction vs arbitrary: u du)
  case Nil
  then show ?case by simp
next
  case (Cons v vs)
  show ?case
  proof (cases "tent v")
    case None
    with Cons show ?thesis by auto
  next
    case (Some d)
    show ?thesis
    proof (cases "closest tent vs")
      case None
      with Some Cons.prems have "u = v" "du = d" by auto
      moreover from None have "\<forall>x\<in>set vs. tent x = None" by (simp add: closest_None)
      ultimately show ?thesis using Some by auto
    next
      case inner: (Some p)
      obtain u' du' where p: "p = (u', du')" by (cases p)
      from Cons.IH[OF inner[unfolded p]] have ih: "u' \<in> set vs" "tent u' = Some du'"
        "\<forall>x\<in>set vs. \<forall>dx. tent x = Some dx \<longrightarrow> du' \<le> dx" by auto
      show ?thesis
      proof (cases "d \<le> du'")
        case True
        with Some inner p Cons.prems have "u = v" "du = d" by auto
        with True ih Some show ?thesis by fastforce
      next
        case False
        with Some inner p Cons.prems have "u = u'" "du = du'" by auto
        with False ih Some show ?thesis by fastforce
      qed
    qed
  qed
qed

lemma settle_cases:
  "settle ns u du tent e = tent
   \<or> (settle ns u du tent e = tent(neighborId u e \<mapsto> du + static_weight ns u e)
      \<and> (tent (neighborId u e) = None
          \<or> (\<exists>d. tent (neighborId u e) = Some d \<and> du + static_weight ns u e < d)))"
  by (auto simp: settle_def Let_def split: option.splits)

lemma settle_relaxed:
  "\<exists>dv. settle ns u du tent e (neighborId u e) = Some dv \<and> dv \<le> du + static_weight ns u e"
  by (auto simp: settle_def Let_def split: option.splits)

text \<open>What a pass over edges of \<open>u\<close> does to the table.\<close>

lemma fold_settle:
  "(\<forall>v d. tent v = Some d \<longrightarrow> (\<exists>d'. foldl (settle ns u du) tent nbs v = Some d' \<and> d' \<le> d))
   \<and> (\<forall>e\<in>set nbs. \<exists>dv. foldl (settle ns u du) tent nbs (neighborId u e) = Some dv
                          \<and> dv \<le> du + static_weight ns u e)
   \<and> (\<forall>v d'. foldl (settle ns u du) tent nbs v = Some d' \<longrightarrow>
         tent v = Some d' \<or> (\<exists>e\<in>set nbs. v = neighborId u e \<and> d' = du + static_weight ns u e
                                 \<and> (\<forall>d. tent v = Some d \<longrightarrow> d' < d)))"
proof (induction nbs arbitrary: tent)
  case Nil
  then show ?case by simp
next
  case (Cons e nbs)
  let ?t1 = "settle ns u du tent e"
  let ?t' = "foldl (settle ns u du) ?t1 nbs"
  note ih = Cons.IH[of ?t1]
  have low1: "\<forall>v d. tent v = Some d \<longrightarrow> (\<exists>d'. ?t1 v = Some d' \<and> d' \<le> d)"
    using settle_cases[of ns u du tent e] by auto
  have new1: "\<forall>v d'. ?t1 v = Some d' \<longrightarrow>
         tent v = Some d' \<or> (v = neighborId u e \<and> d' = du + static_weight ns u e
                                 \<and> (\<forall>d. tent v = Some d \<longrightarrow> d' < d))"
    using settle_cases[of ns u du tent e] by (auto split: if_splits)
  have a: "\<forall>v d. tent v = Some d \<longrightarrow> (\<exists>d'. ?t' v = Some d' \<and> d' \<le> d)"
  proof (intro allI impI)
    fix v d assume "tent v = Some d"
    with low1 obtain d1 where "?t1 v = Some d1" "d1 \<le> d" by blast
    with ih obtain d' where "?t' v = Some d'" "d' \<le> d1" by blast
    with \<open>d1 \<le> d\<close> show "\<exists>d'. ?t' v = Some d' \<and> d' \<le> d" by auto
  qed
  have b: "\<forall>e'\<in>set (e # nbs). \<exists>dv. ?t' (neighborId u e') = Some dv
                          \<and> dv \<le> du + static_weight ns u e'"
  proof
    fix e' assume "e' \<in> set (e # nbs)"
    then consider "e' = e" | "e' \<in> set nbs" by auto
    then show "\<exists>dv. ?t' (neighborId u e') = Some dv \<and> dv \<le> du + static_weight ns u e'"
    proof cases
      assume "e' = e"
      from settle_relaxed[of ns u du tent e] obtain d1 where
        "?t1 (neighborId u e) = Some d1" "d1 \<le> du + static_weight ns u e" by blast
      moreover with ih obtain d' where "?t' (neighborId u e) = Some d'" "d' \<le> d1" by blast
      ultimately show ?thesis using \<open>e' = e\<close> by auto
    next
      assume "e' \<in> set nbs"
      with ih show ?thesis by blast
    qed
  qed
  have c: "\<forall>v d'. ?t' v = Some d' \<longrightarrow>
         tent v = Some d' \<or> (\<exists>e'\<in>set (e # nbs). v = neighborId u e' \<and> d' = du + static_weight ns u e'
                                 \<and> (\<forall>d. tent v = Some d \<longrightarrow> d' < d))"
  proof (intro allI impI)
    fix v d' assume t': "?t' v = Some d'"
    from ih t' have "?t1 v = Some d' \<or> (\<exists>e'\<in>set nbs. v = neighborId u e' \<and> d' = du + static_weight ns u e'
                                 \<and> (\<forall>d. ?t1 v = Some d \<longrightarrow> d' < d))" by blast
    then show "tent v = Some d' \<or> (\<exists>e'\<in>set (e # nbs). v = neighborId u e' \<and> d' = du + static_weight ns u e'
                                 \<and> (\<forall>d. tent v = Some d \<longrightarrow> d' < d))"
    proof
      assume "?t1 v = Some d'"
      with new1 show ?thesis by auto
    next
      assume "\<exists>e'\<in>set nbs. v = neighborId u e' \<and> d' = du + static_weight ns u e'
                                 \<and> (\<forall>d. ?t1 v = Some d \<longrightarrow> d' < d)"
      then obtain e' where e': "e' \<in> set nbs" "v = neighborId u e'" "d' = du + static_weight ns u e'"
        "\<forall>d. ?t1 v = Some d \<longrightarrow> d' < d" by blast
      have "\<forall>d. tent v = Some d \<longrightarrow> d' < d"
      proof (intro allI impI)
        fix d assume "tent v = Some d"
        with low1 obtain d1 where "?t1 v = Some d1" "d1 \<le> d" by blast
        with e'(4) show "d' < d" by fastforce
      qed
      with e' show ?thesis by auto
    qed
  qed
  from a b c show ?case by simp
qed

lemma dijkstra_round:
  assumes pg: "plain_graph ns es" and inv: "dijkstra_inv ns es s tent unsettled"
    and cl: "closest tent unsettled = Some (u, du)"
  shows "dijkstra_inv ns es s (foldl (settle ns u du) tent (neighbors es u)) (removeAll u unsettled)"
proof -
  let ?T = "foldl (settle ns u du) tent (neighbors es u)"
  from inv have s0: "tent s = Some 0" and real: "realised ns es s tent"
    and rel: "all_relaxed ns es tent unsettled"
    and ord: "\<And>y dy x dx. tent y = Some dy \<Longrightarrow> y \<notin> set unsettled \<Longrightarrow> tent x = Some dx
                 \<Longrightarrow> x \<in> set unsettled \<Longrightarrow> dy \<le> dx"
    and ends: "\<And>e. e \<in> set es \<Longrightarrow> (source e \<in> set unsettled \<or> tent (source e) \<noteq> None)
                    \<and> (target e \<in> set unsettled \<or> tent (target e) \<noteq> None)"
    unfolding dijkstra_inv_def by blast+
  from closest_Some[OF cl] have uin: "u \<in> set unsettled" and tu: "tent u = Some du"
    and least: "\<And>x dx. x \<in> set unsettled \<Longrightarrow> tent x = Some dx \<Longrightarrow> du \<le> dx" by auto
  from fold_settle[of tent ns u du "neighbors es u"]
  have low: "\<And>v d. tent v = Some d \<Longrightarrow> \<exists>d'. ?T v = Some d' \<and> d' \<le> d"
    and relaxed: "\<And>e. e \<in> set (neighbors es u) \<Longrightarrow>
                 \<exists>dv. ?T (neighborId u e) = Some dv \<and> dv \<le> du + static_weight ns u e"
    and origin: "\<And>v d'. ?T v = Some d' \<Longrightarrow>
         tent v = Some d' \<or> (\<exists>e\<in>set (neighbors es u). v = neighborId u e
                                 \<and> d' = du + static_weight ns u e
                                 \<and> (\<forall>d. tent v = Some d \<longrightarrow> d' < d))"
    by blast+
  have nbs: "\<And>e. e \<in> set (neighbors es u) \<longleftrightarrow> e \<in> set es \<and> (source e = u \<or> target e = u)"
    by (auto simp: neighbors_def)
  have pos: "\<And>e c. e \<in> set es \<Longrightarrow> 0 < static_weight ns c e"
    using static_weight_pos[OF pg] .
  from real tu obtain wu where wu: "is_walk es s wu" "walk_end s wu = u" "walk_cost ns s wu = du"
    unfolding realised_def by blast
  have du0: "0 \<le> du" using walk_cost_nonneg[OF pg wu(1)] wu(3) by simp
  have settled: "tent y = Some dy \<and> dy \<le> du"
    if y: "?T y = Some dy" "y = u \<or> y \<notin> set unsettled" for y dy
  proof -
    from origin[OF y(1)] show ?thesis
    proof
      assume t: "tent y = Some dy"
      show ?thesis
      proof (cases "y = u")
        case True
        with t tu show ?thesis by simp
      next
        case False
        with y(2) have "y \<notin> set unsettled" by simp
        from ord[OF t this tu uin] t show ?thesis by simp
      qed
    next
      assume "\<exists>e\<in>set (neighbors es u). y = neighborId u e \<and> dy = du + static_weight ns u e
                                 \<and> (\<forall>d. tent y = Some d \<longrightarrow> dy < d)"
      then obtain e where e: "e \<in> set es" "source e = u \<or> target e = u" "y = neighborId u e"
        "dy = du + static_weight ns u e" "\<forall>d. tent y = Some d \<longrightarrow> dy < d"
        using nbs by blast
      have "\<exists>d0. tent y = Some d0 \<and> d0 \<le> du"
      proof (cases "y = u")
        case True
        with tu show ?thesis by simp
      next
        case False
        with y(2) have yn: "y \<notin> set unsettled" by simp
        have "y = source e \<or> y = target e" using e(3) by (auto simp: neighborId_def)
        with ends[OF e(1)] yn obtain d0 where d0: "tent y = Some d0" by auto
        from ord[OF d0 yn tu uin] d0 show ?thesis by simp
      qed
      then obtain d0 where "tent y = Some d0" "d0 \<le> du" by blast
      with e(4,5) pos[OF e(1), of u] show ?thesis by fastforce
    qed
  qed
  have 1: "?T s = Some 0"
  proof -
    from low[OF s0] obtain d' where d': "?T s = Some d'" "d' \<le> 0" by blast
    from origin[OF d'(1)] show ?thesis
    proof
      assume "tent s = Some d'"
      with s0 d' show ?thesis by simp
    next
      assume "\<exists>e\<in>set (neighbors es u). s = neighborId u e \<and> d' = du + static_weight ns u e
                                 \<and> (\<forall>d. tent s = Some d \<longrightarrow> d' < d)"
      then obtain e where "e \<in> set es" "d' = du + static_weight ns u e" using nbs by blast
      with pos[of e u] du0 d'(2) show ?thesis by simp
    qed
  qed
  have 2: "realised ns es s ?T"
    unfolding realised_def
  proof (intro allI impI)
    fix v d' assume "?T v = Some d'"
    from origin[OF this]
    show "\<exists>w. is_walk es s w \<and> walk_end s w = v \<and> walk_cost ns s w = d'"
    proof
      assume "tent v = Some d'"
      with real show ?thesis unfolding realised_def by blast
    next
      assume "\<exists>e\<in>set (neighbors es u). v = neighborId u e \<and> d' = du + static_weight ns u e
                                 \<and> (\<forall>d. tent v = Some d \<longrightarrow> d' < d)"
      then obtain e where e: "e \<in> set es" "source e = u \<or> target e = u" "v = neighborId u e"
        "d' = du + static_weight ns u e" using nbs by blast
      with wu show ?thesis
        by (intro exI[of _ "wu @ [e]"])
           (simp add: is_walk_append walk_end_append walk_cost_append)
    qed
  qed
  have 3: "all_relaxed ns es ?T (removeAll u unsettled)"
    unfolding all_relaxed_def
  proof (intro allI impI ballI)
    fix x dx e
    assume x: "?T x = Some dx \<and> x \<notin> set (removeAll u unsettled)" and e: "e \<in> set es"
      and inc: "source e = x \<or> target e = x"
    then have xs: "x = u \<or> x \<notin> set unsettled" by auto
    from settled[OF _ xs] x have tx: "tent x = Some dx" by blast
    show "\<exists>dv. ?T (neighborId x e) = Some dv \<and> dv \<le> dx + static_weight ns x e"
    proof (cases "x = u")
      case True
      with tx tu have "dx = du" by simp
      with relaxed[of e] e inc True show ?thesis by (simp add: nbs)
    next
      case False
      with xs have "x \<notin> set unsettled" by simp
      with rel tx e inc obtain dv where "tent (neighborId x e) = Some dv"
        "dv \<le> dx + static_weight ns x e" unfolding all_relaxed_def by blast
      with low[of "neighborId x e" dv] show ?thesis by fastforce
    qed
  qed
  have 4: "\<forall>y dy x dx. ?T y = Some dy \<and> y \<notin> set (removeAll u unsettled) \<and> ?T x = Some dx
             \<and> x \<in> set (removeAll u unsettled) \<longrightarrow> dy \<le> dx"
  proof (intro allI impI)
    fix y dy x dx
    assume a: "?T y = Some dy \<and> y \<notin> set (removeAll u unsettled) \<and> ?T x = Some dx
             \<and> x \<in> set (removeAll u unsettled)"
    then have "y = u \<or> y \<notin> set unsettled" and xin: "x \<in> set unsettled" by auto
    from settled[OF _ this(1)] a have dy: "dy \<le> du" by blast
    from a origin[of x dx] have "du \<le> dx"
    proof -
      from a have "?T x = Some dx" by simp
      from origin[OF this] show ?thesis
      proof
        assume "tent x = Some dx"
        from least[OF xin this] show ?thesis .
      next
        assume "\<exists>e\<in>set (neighbors es u). x = neighborId u e \<and> dx = du + static_weight ns u e
                                 \<and> (\<forall>d. tent x = Some d \<longrightarrow> dx < d)"
        then obtain e where "e \<in> set es" "dx = du + static_weight ns u e" using nbs by blast
        with pos[of e u] show ?thesis by simp
      qed
    qed
    with dy show "dy \<le> dx" by simp
  qed
  have 5: "\<forall>e\<in>set es. (source e \<in> set (removeAll u unsettled) \<or> ?T (source e) \<noteq> None)
                    \<and> (target e \<in> set (removeAll u unsettled) \<or> ?T (target e) \<noteq> None)"
  proof
    fix e assume e: "e \<in> set es"
    have "v \<in> set (removeAll u unsettled) \<or> ?T v \<noteq> None"
      if "v \<in> set unsettled \<or> tent v \<noteq> None" for v
    proof (cases "tent v")
      case None
      with that tu show ?thesis by auto
    next
      case (Some d)
      from low[OF this] show ?thesis by auto
    qed
    with ends[OF e] show "(source e \<in> set (removeAll u unsettled) \<or> ?T (source e) \<noteq> None)
                    \<and> (target e \<in> set (removeAll u unsettled) \<or> ?T (target e) \<noteq> None)" by blast
  qed
  from 1 2 3 4 5 show ?thesis unfolding dijkstra_inv_def by blast
qed

lemma dijkstra_rounds_final:
  assumes pg: "plain_graph ns es"
  shows "dijkstra_inv ns es s tent unsettled \<Longrightarrow> length unsettled \<le> n \<Longrightarrow>
     realised ns es s (dijkstra_rounds ns es n tent unsettled)
     \<and> dijkstra_rounds ns es n tent unsettled s = Some 0
     \<and> all_relaxed ns es (dijkstra_rounds ns es n tent unsettled) []"
proof (induction n arbitrary: tent unsettled)
  case 0
  then show ?case by (simp add: dijkstra_inv_def)
next
  case (Suc n)
  from Suc.prems(1) have s0: "tent s = Some 0" and real: "realised ns es s tent"
    and rel: "all_relaxed ns es tent unsettled"
    unfolding dijkstra_inv_def by blast+
  show ?case
  proof (cases "closest tent unsettled")
    case None
    then have none: "\<forall>v\<in>set unsettled. tent v = None" by (simp add: closest_None)
    have eq: "dijkstra_rounds ns es (Suc n) tent unsettled = tent" using None by simp
    have "all_relaxed ns es tent []"
      unfolding all_relaxed_def
    proof (intro allI impI)
      fix u du assume "tent u = Some du \<and> u \<notin> set []"
      with none have "tent u = Some du \<and> u \<notin> set unsettled" by auto
      with rel show "\<forall>e\<in>set es. source e = u \<or> target e = u \<longrightarrow>
           (\<exists>dv. tent (neighborId u e) = Some dv \<and> dv \<le> du + static_weight ns u e)"
        unfolding all_relaxed_def by blast
    qed
    with s0 real show ?thesis unfolding eq by blast
  next
    case (Some p)
    obtain u du where p: "p = (u, du)" by (cases p)
    have eq: "dijkstra_rounds ns es (Suc n) tent unsettled
        = dijkstra_rounds ns es n (foldl (settle ns u du) tent (neighbors es u)) (removeAll u unsettled)"
      using Some p by simp
    from closest_Some[OF Some[unfolded p]] have "u \<in> set unsettled" by blast
    then have "length (removeAll u unsettled) < length unsettled" by (rule length_removeAll_less)
    with Suc.prems(2) have l: "length (removeAll u unsettled) \<le> n" by simp
    from Suc.IH[OF dijkstra_round[OF pg Suc.prems(1) Some[unfolded p]] l]
    show ?thesis unfolding eq .
  qed
qed

lemma dijkstra_inv_init:
  "dijkstra_inv ns es s [s \<mapsto> 0] (graph_nodes s es)"
proof -
  have "realised ns es s [s \<mapsto> 0]"
    unfolding realised_def by (auto intro: exI[of _ "[]"])
  moreover have "\<forall>e\<in>set es. source e \<in> set (graph_nodes s es) \<and> target e \<in> set (graph_nodes s es)"
    by (auto simp: graph_nodes_def)
  moreover have "all_relaxed ns es [s \<mapsto> 0] (graph_nodes s es)"
    unfolding all_relaxed_def by (auto simp: graph_nodes_def)
  moreover have "\<forall>u du x dx. [s \<mapsto> 0] u = Some du \<and> u \<notin> set (graph_nodes s es)
      \<and> [s \<mapsto> 0] x = Some dx \<and> x \<in> set (graph_nodes s es) \<longrightarrow> du \<le> dx"
    by (auto simp: graph_nodes_def)
  ultimately show ?thesis
    unfolding dijkstra_inv_def by simp
qed

lemma relaxed_bound:
  assumes rel: "all_relaxed ns es T []" and s0: "T s = Some 0"
  shows "is_walk es s w \<Longrightarrow> \<exists>d. T (walk_end s w) = Some d \<and> d \<le> walk_cost ns s w"
proof (induction w rule: rev_induct)
  case Nil
  then show ?case using s0 by simp
next
  case (snoc e w)
  then have w: "is_walk es s w" and e: "e \<in> set es"
    and inc: "source e = walk_end s w \<or> target e = walk_end s w"
    by (auto simp: is_walk_append)
  from snoc.IH[OF w] obtain d where d: "T (walk_end s w) = Some d" "d \<le> walk_cost ns s w" by blast
  with rel e inc obtain dv where "T (neighborId (walk_end s w) e) = Some dv"
    "dv \<le> d + static_weight ns (walk_end s w) e"
    unfolding all_relaxed_def by fastforce
  with d show ?case by (auto simp: walk_end_append walk_cost_append)
qed

lemma dijkstra_reference_shortest:
  assumes pg: "plain_graph ns es" and reach: "is_walk es s w0" "walk_end s w0 = goal"
  shows "\<exists>d. dijkstra_reference ns es s goal = Some d
           \<and> (\<exists>w. is_walk es s w \<and> walk_end s w = goal \<and> walk_cost ns s w = d)
           \<and> (\<forall>w'. is_walk es s w' \<and> walk_end s w' = goal \<longrightarrow> d \<le> walk_cost ns s w')"
proof -
  define T where "T = dijkstra_rounds ns es (length (graph_nodes s es)) [s \<mapsto> 0] (graph_nodes s es)"
  from dijkstra_rounds_final[OF pg dijkstra_inv_init order_refl, of s]
  have real: "realised ns es s T" and s0: "T s = Some 0" and rel: "all_relaxed ns es T []"
    unfolding T_def by blast+
  from relaxed_bound[OF rel s0 reach(1)] obtain d where d: "T goal = Some d"
    unfolding reach(2) by blast
  have least: "\<forall>w'. is_walk es s w' \<and> walk_end s w' = goal \<longrightarrow> d \<le> walk_cost ns s w'"
  proof (intro allI impI)
    fix w' assume w': "is_walk es s w' \<and> walk_end s w' = goal"
    then have "is_walk es s w'" and e: "walk_end s w' = goal" by blast+
    from relaxed_bound[OF rel s0 this(1)] obtain d' where "T goal = Some d'" "d' \<le> walk_cost ns s w'"
      unfolding e by blast
    with d show "d \<le> walk_cost ns s w'" by simp
  qed
  from real d have "\<exists>w. is_walk es s w \<and> walk_end s w = goal \<and> walk_cost ns s w = d"
    unfolding realised_def by blast
  moreover have "dijkstra_reference ns es s goal = Some d"
    unfolding dijkstra_reference_def using d unfolding T_def .
  ultimately show ?thesis using least by blast
qed

subsection \<open>The planner against the reference\<close>

lemma plain_graph_bypass: "plain_graph bypass_nodes bypass_edges"
  unfolding plain_graph_def
  by (simp add: bypass_edges_def bypass_nodes_def connects_def getDirection_def find_node_def)

text \<open>
  Claim C2 as stated fails. On the bypass graph no road-level factor and no turn penalty
  is ever due, yet the planner returns the bypass, of cost 6/5, while the walk over M
  costs 1, which is also what the reference Dijkstra computes: on the 120 km/h segments
  the heuristic, which assumes 60 km/h, overestimates the remaining cost at M, and the
  goal is taken from the open set before M is expanded.
\<close>

theorem bypass_not_shortest:
  "plain_graph bypass_nodes bypass_edges
   \<and> findBestPath ''S'' ''G'' bypass_edges bypass_nodes
       = Some (Found \<lparr>path = [NodeId ''S'', NodeId ''G''], time = Fin (6 / 5)\<rparr>)
   \<and> walk_cost bypass_nodes ''S'' [bypass_edges ! 2] = 6 / 5
   \<and> dijkstra_reference bypass_nodes bypass_edges ''S'' ''G'' = Some 1
   \<and> is_walk bypass_edges ''S'' [bypass_edges ! 0, bypass_edges ! 1]
   \<and> walk_end ''S'' [bypass_edges ! 0, bypass_edges ! 1] = ''G''
   \<and> walk_cost bypass_nodes ''S'' [bypass_edges ! 0, bypass_edges ! 1] = 1"
proof -
  have "dijkstra_reference bypass_nodes bypass_edges ''S'' ''G'' = Some 1"
    by (simp add: dijkstra_reference_def graph_nodes_def bypass_edges_def bypass_nodes_def
      neighbors_def settle_def static_weight_def red_node_def find_node_def neighborId_def Let_def)
  moreover have "walk_cost bypass_nodes ''S'' [bypass_edges ! 2] = 6 / 5"
    "is_walk bypass_edges ''S'' [bypass_edges ! 0, bypass_edges ! 1]"
    "walk_end ''S'' [bypass_edges ! 0, bypass_edges ! 1] = ''G''"
    "walk_cost bypass_nodes ''S'' [bypass_edges ! 0, bypass_edges ! 1] = 1"
    by (simp_all add: bypass_edges_def bypass_nodes_def static_weight_def red_node_def
        find_node_def neighborId_def)
  ultimately show ?thesis using plain_graph_bypass findBestPath_bypass by simp
qed

lemma findBestPath_least:
  assumes "plain_graph ns currentEdges" and "admissible ns currentEdges endId"
    and "is_walk currentEdges startId w0" and "walk_end startId w0 = endId"
    and "startId \<notin> set proto_keys" and "''__proto__'' \<notin> node_id ` set ns"
  shows "\<exists>r. findBestPath startId endId currentEdges ns = Some (Found r)
           \<and> optimal_route ns currentEdges startId endId r"
proof -
  from assms(5) have "startId \<noteq> ''__proto__''" by (auto simp: proto_keys_def)
  then show ?thesis
    unfolding findBestPath_def
    using astar_loop_optimal[OF assms(1-4) head_inv_init[OF assms(5,6)]] by simp
qed

text \<open>
  Claim C2 as amended: on a graph without road-level factor and turn penalties (positive
  lengths, endpoints listed as nodes), if the heuristic never overestimates the static
  cost of any walk to the goal, then for every start from which the goal can be reached
  \<open>findBestPath\<close> returns a route whose time is the cost computed by the reference
  Dijkstra algorithm on the static weights; that time is the static cost of a walk along
  the returned path, and no walk from start to goal costs less. The statement is for
  start ids that are not names of members of \<open>Object.prototype\<close> and for graphs without a
  node called \<open>__proto__\<close>; what the search does with the inherited members is left out
  of it.
\<close>

theorem findBestPath_optimal:
  assumes "plain_graph ns currentEdges" and "admissible ns currentEdges endId"
    and "is_walk currentEdges startId w0" and "walk_end startId w0 = endId"
    and "startId \<notin> set proto_keys" and "''__proto__'' \<notin> node_id ` set ns"
  shows "\<exists>r d. findBestPath startId endId currentEdges ns = Some (Found r)
           \<and> time r = Fin d
           \<and> dijkstra_reference ns currentEdges startId endId = Some d
           \<and> optimal_route ns currentEdges startId endId r"
proof -
  from findBestPath_least[OF assms] obtain r where
    r: "findBestPath startId endId currentEdges ns = Some (Found r)"
    and opt: "optimal_route ns currentEdges startId endId r" by blast
  from opt obtain d w where d: "time r = Fin d" "is_walk currentEdges startId w"
    "walk_end startId w = endId" "walk_cost ns startId w = d"
    "\<forall>w'. is_walk currentEdges startId w' \<and> walk_end startId w' = endId
        \<longrightarrow> d \<le> walk_cost ns startId w'"
    unfolding optimal_route_def by blast
  from dijkstra_reference_shortest[OF assms(1,3,4)] obtain d' w' where
    d': "dijkstra_reference ns currentEdges startId endId = Some d'"
    "is_walk currentEdges startId w'" "walk_end startId w' = endId" "walk_cost ns startId w' = d'"
    "\<forall>w. is_walk currentEdges startId w \<and> walk_end startId w = endId
        \<longrightarrow> d' \<le> walk_cost ns startId w"
    by blast
  from d(2,3,4,5) d'(2,3,4,5) have "d = d'" by fastforce
  with r opt d(1) d'(1) show ?thesis by blast
qed

lemma findBestPath_city:
  "findBestPath ''S'' ''G'' city_edges bypass_nodes
     = Some (Found \<lparr>path = [NodeId ''S'', NodeId ''M'', NodeId ''G''], time = Fin 2\<rparr>)"
  by (simp add: findBestPath_def astar_init_def city_edges_def bypass_nodes_def astar_loop.simps
     reconstruct.simps lowest_def neighbors_def relax_def edge_cost_def neighborId_def find_node_def
     heuristic_def getDirection_def add_open_def js_set_def js_get_def proto_keys_def Let_def)

theorem findBestPath_optimal_witness:
  "findBestPath ''S'' ''G'' city_edges bypass_nodes
     = Some (Found \<lparr>path = [NodeId ''S'', NodeId ''M'', NodeId ''G''], time = Fin 2\<rparr>)
   \<and> dijkstra_reference bypass_nodes city_edges ''S'' ''G'' = Some 2
   \<and> optimal_route bypass_nodes city_edges ''S'' ''G''
         \<lparr>path = [NodeId ''S'', NodeId ''M'', NodeId ''G''], time = Fin 2\<rparr>"
proof -
  have pg: "plain_graph bypass_nodes city_edges"
    unfolding plain_graph_def
    by (simp add: city_edges_def bypass_nodes_def connects_def getDirection_def find_node_def)
  have "consistent bypass_nodes city_edges ''G''"
    by (simp add: consistent_def city_edges_def bypass_nodes_def heuristic_def find_node_def
        static_weight_def red_node_def neighborId_def Let_def)
  then have adm: "admissible bypass_nodes city_edges ''G''"
    using consistent_admissible[OF pg] by simp
  have w: "is_walk city_edges ''S'' [city_edges ! 2]" "walk_end ''S'' [city_edges ! 2] = ''G''"
    by (simp_all add: city_edges_def neighborId_def)
  have ids: "''S'' \<notin> set proto_keys" "''__proto__'' \<notin> node_id ` set bypass_nodes"
    by (simp_all add: proto_keys_def bypass_nodes_def)
  from findBestPath_optimal [OF pg adm w ids] findBestPath_city show ?thesis by auto
qed

end
